theory Spec2Isabelle
  imports Main "HOL-Library.AList"
begin

section \<open>Data model\<close>

text \<open>
  A \<open>City\<close> object of \<^verbatim>\<open>traffic.py\<close> has four fields. Python compares and stores
  cities by object identity (the class defines neither \<^verbatim>\<open>__eq__\<close> nor \<^verbatim>\<open>__hash__\<close>),
  so the model keeps the objects in an explicit store: a reference is the index of
  the object in the store, in order of construction, and a list of cities is a list
  of references.
\<close>

type_synonym ref = nat

record City =
  name :: string
  population :: int
  connections :: "ref list"
  visited :: bool

type_synonym heap = "City list"

text \<open>\<^verbatim>\<open>City.__init__\<close>: no connection, not visited.\<close>

definition new_City :: "string \<Rightarrow> int \<Rightarrow> City" where
  "new_City n p = \<lparr>name = n, population = p, connections = [], visited = False\<rparr>"

text \<open>
  Reading a field through a reference. A Python reference always denotes a live
  object; a store of the model may hold a reference beyond its length, and reading
  through it is the value \<open>None\<close>.
\<close>

definition deref :: "heap \<Rightarrow> ref \<Rightarrow> City option" where
  "deref h r = (if r < length h then Some (h ! r) else None)"

text \<open>
  \<^verbatim>\<open>City.add_connection\<close>: append \<open>city_obj\<close> to the connections of \<open>self\<close> unless it
  is already there. (For \<open>self\<close> beyond the store, both branches are the store itself.)
\<close>

definition add_connection :: "ref \<Rightarrow> ref \<Rightarrow> heap \<Rightarrow> heap" where
  "add_connection self city_obj h =
     (if city_obj \<in> set (connections (h ! self)) then h
      else h[self := (h ! self)\<lparr>connections := connections (h ! self) @ [city_obj]\<rparr>])"

text \<open>\<^verbatim>\<open>City.reset_visited\<close>.\<close>

definition reset_visited :: "ref \<Rightarrow> heap \<Rightarrow> heap option" where
  "reset_visited self h =
     (case deref h self of None \<Rightarrow> None
      | Some c \<Rightarrow> Some (h[self := c\<lparr>visited := False\<rparr>]))"

section \<open>Strings\<close>

text \<open>
  Texts are lists of 8-bit characters. \<open>is_space\<close> lists the characters below 256
  for which \<^verbatim>\<open>str.isspace\<close> holds; \<^verbatim>\<open>str.strip()\<close> removes them at both ends.
\<close>

definition is_space :: "char \<Rightarrow> bool" where
  "is_space c = (c \<in> set [CHR 0x09, CHR 0x0A, CHR 0x0B, CHR 0x0C, CHR 0x0D,
                           CHR 0x1C, CHR 0x1D, CHR 0x1E, CHR 0x1F, CHR 0x20,
                           CHR 0x85, CHR 0xA0])"

definition strip :: "string \<Rightarrow> string" where
  "strip s = rev (dropWhile is_space (rev (dropWhile is_space s)))"

text \<open>
  \<^verbatim>\<open>s.split('\n')\<close>: the pieces between line feeds. The result is never the empty
  list, so the first branch of the \<open>case\<close> is never taken.
\<close>

fun split_nl :: "string \<Rightarrow> string list" where
  "split_nl [] = [[]]"
| "split_nl (c # cs) =
     (if c = CHR 0x0A then [] # split_nl cs
      else (case split_nl cs of [] \<Rightarrow> [[c]] | p # ps \<Rightarrow> (c # p) # ps))"

text \<open>
  \<^verbatim>\<open>s.split(' : ')\<close>: the pieces between the occurrences of the three-character
  separator, found from the left and not overlapping. Again the result is never the
  empty list.
\<close>

function split_sep :: "string \<Rightarrow> string list" where
  "split_sep [] = [[]]"
| "split_sep (c # cs) =
     (if take 3 (c # cs) = '' : '' then [] # split_sep (drop 2 cs)
      else (case split_sep cs of [] \<Rightarrow> [[c]] | p # ps \<Rightarrow> (c # p) # ps))"
  by pat_completeness auto
termination
  by (relation "measure length") auto

text \<open>
  \<^verbatim>\<open>int(s)\<close> on a text already stripped: an optional sign, then decimal digits,
  where single underscores may stand between digits. Anything else is a
  \<^verbatim>\<open>ValueError\<close>.
\<close>

datatype error = ValueError

definition is_digit :: "char \<Rightarrow> bool" where
  "is_digit c = (c \<in> set ''0123456789'')"

definition digit_val :: "char \<Rightarrow> int" where
  "digit_val c = int (of_char c) - 48"

fun py_digits :: "int \<Rightarrow> bool \<Rightarrow> string \<Rightarrow> error + int" where
  "py_digits acc prev [] = (if prev then Inr acc else Inl ValueError)"
| "py_digits acc prev (c # cs) =
     (if is_digit c then py_digits (10 * acc + digit_val c) True cs
      else if c = CHR ''_'' \<and> prev \<and> cs \<noteq> [] \<and> is_digit (hd cs)
        then py_digits acc False cs
      else Inl ValueError)"

definition py_int :: "string \<Rightarrow> error + int" where
  "py_int s =
     (case strip s of
        [] \<Rightarrow> Inl ValueError
      | c # cs \<Rightarrow>
          if c = CHR ''-'' then map_sum id uminus (py_digits 0 False cs)
          else if c = CHR ''+'' then py_digits 0 False cs
          else py_digits 0 False (c # cs))"

section \<open>Building the graph\<close>

text \<open>
  The builder's state: the store, and \<open>city_map\<close>, the dictionary from names to
  cities. A Python dictionary keeps its keys in order of first insertion and
  assigning to a present key replaces the value in place, which is
  \<^const>\<open>AList.update\<close> on an association list.
\<close>

type_synonym builder = "heap \<times> (string \<times> ref) list"

text \<open>Unpacking into two names raises \<^verbatim>\<open>ValueError\<close> unless there are two parts.\<close>

definition unpack2 :: "string list \<Rightarrow> error + string \<times> string" where
  "unpack2 parts = (case parts of [a, b] \<Rightarrow> Inr (a, b) | _ \<Rightarrow> Inl ValueError)"

text \<open>The body of the \<^verbatim>\<open>try\<close> of the population loop, on the stripped line.\<close>

definition pop_try :: "string \<Rightarrow> builder \<Rightarrow> error + builder" where
  "pop_try line st =
     (case unpack2 (split_sep line) of
        Inl e \<Rightarrow> Inl e
      | Inr (nm, pop_str) \<Rightarrow>
          (case py_int (strip pop_str) of
             Inl e \<Rightarrow> Inl e
           | Inr p \<Rightarrow>
               Inr (fst st @ [new_City (strip nm) p],
                    AList.update (strip nm) (length (fst st)) (snd st))))"

text \<open>One pass of the population loop: blank lines and lines that raise are skipped.\<close>

definition pop_line :: "string \<Rightarrow> builder \<Rightarrow> builder" where
  "pop_line raw st =
     (let line = strip raw in
      if line = [] then st
      else (case pop_try line st of Inl ValueError \<Rightarrow> st | Inr st' \<Rightarrow> st'))"

text \<open>The body of the \<^verbatim>\<open>try\<close> of the road loop.\<close>

definition road_try :: "string \<Rightarrow> builder \<Rightarrow> error + builder" where
  "road_try line st =
     (case unpack2 (split_sep line) of
        Inl e \<Rightarrow> Inl e
      | Inr (n1, n2) \<Rightarrow>
          (let city1_name = strip n1; city2_name = strip n2 in
           case (map_of (snd st) city1_name, map_of (snd st) city2_name) of
             (Some city1, Some city2) \<Rightarrow>
               Inr (add_connection city2 city1 (add_connection city1 city2 (fst st)), snd st)
           | _ \<Rightarrow> Inr st))"

definition road_line :: "string \<Rightarrow> builder \<Rightarrow> builder" where
  "road_line raw st =
     (let line = strip raw in
      if line = [] then st
      else (case road_try line st of Inl ValueError \<Rightarrow> st | Inr st' \<Rightarrow> st'))"

text \<open>
  \<^verbatim>\<open>build_graph\<close>: every population line, then every road line; the result is the
  list of the dictionary's values, together with the store they refer to.
\<close>

definition build_graph :: "string \<Rightarrow> string \<Rightarrow> heap \<times> ref list" where
  "build_graph pop_data road_data =
     (let st1 = fold pop_line (split_nl pop_data) ([], []);
          st2 = fold road_line (split_nl road_data) st1
      in (fst st2, map snd (snd st2)))"

section \<open>Traversals\<close>

subsection \<open>Depth-first search\<close>

text \<open>
  The \<^verbatim>\<open>for\<close> loop of \<^verbatim>\<open>_depth_first_search\<close> over the connections of the city just
  popped: an unvisited neighbor is marked, counted and pushed. The stack is a Python
  list, pushed and popped at its end.
\<close>

fun visit_neighbors :: "ref list \<Rightarrow> heap \<times> ref list \<times> int \<Rightarrow> (heap \<times> ref list \<times> int) option" where
  "visit_neighbors [] s = Some s"
| "visit_neighbors (neighbor # rest) (h, stack, island_population) =
     (case deref h neighbor of
        None \<Rightarrow> None
      | Some c \<Rightarrow>
          if \<not> visited c
          then visit_neighbors rest
                 (h[neighbor := c\<lparr>visited := True\<rparr>], stack @ [neighbor],
                  island_population + population c)
          else visit_neighbors rest (h, stack, island_population))"

text \<open>The number of unmarked objects of the store bounds the \<^verbatim>\<open>while\<close> loop.\<close>

definition unvisited :: "heap \<Rightarrow> nat" where
  "unvisited h = length (filter (\<lambda>c. \<not> visited c) h)"

lemma unvisited_mark:
  assumes "r < length h" "\<not> visited (h ! r)"
  shows "Suc (unvisited (h[r := (h ! r)\<lparr>visited := True\<rparr>])) = unvisited h"
proof -
  have h: "h = take r h @ (h ! r) # drop (Suc r) h"
    using assms(1) by (simp add: id_take_nth_drop)
  have u: "h[r := (h ! r)\<lparr>visited := True\<rparr>] = take r h @ ((h ! r)\<lparr>visited := True\<rparr>) # drop (Suc r) h"
    using assms(1) by (simp add: upd_conv_take_nth_drop)
  have "unvisited h = unvisited (take r h @ (h ! r) # drop (Suc r) h)"
    using h by simp
  then show ?thesis
    unfolding u using assms(2) by (simp add: unvisited_def)
qed

lemma visit_neighbors_measure:
  "visit_neighbors ns (h, st, p) = Some (h', st', p') \<Longrightarrow>
     2 * unvisited h' + length st' \<le> 2 * unvisited h + length st"
proof (induction ns arbitrary: h st p)
  case Nil
  then show ?case by simp
next
  case (Cons n ns)
  then show ?case
    using unvisited_mark[of n h]
    by (fastforce simp: deref_def split: if_splits)
qed

text \<open>The \<^verbatim>\<open>while stack\<close> loop.\<close>

function dfs_while :: "heap \<Rightarrow> ref list \<Rightarrow> int \<Rightarrow> (int \<times> heap) option" where
  "dfs_while h stack island_population =
     (if stack = [] then Some (island_population, h)
      else
        (case deref h (last stack) of
           None \<Rightarrow> None
         | Some city \<Rightarrow>
             (case visit_neighbors (connections city) (h, butlast stack, island_population) of
                None \<Rightarrow> None
              | Some (h', stack', p') \<Rightarrow> dfs_while h' stack' p')))"
  by pat_completeness auto
termination
proof (relation "measure (\<lambda>(h, stack, p). 2 * unvisited h + length stack)", goal_cases)
  case 1
  then show ?case by simp
next
  case (2 h stack p city r h' x stack' p')
  then show ?case
    using visit_neighbors_measure[of "connections city" h "butlast stack" p h' stack' p']
    by (cases stack rule: rev_cases) auto
qed

text \<open>\<^verbatim>\<open>_depth_first_search\<close>: the population it returns, and the store it leaves.\<close>

definition depth_first_search :: "ref \<Rightarrow> heap \<Rightarrow> (int \<times> heap) option" where
  "depth_first_search start_city h =
     (case deref h start_city of
        None \<Rightarrow> None
      | Some c \<Rightarrow>
          if visited c then Some (0, h)
          else dfs_while (h[start_city := c\<lparr>visited := True\<rparr>]) [start_city] (population c))"

subsection \<open>Islands\<close>

text \<open>The first loop of both operations: \<^verbatim>\<open>reset_visited\<close> on every city of the list.\<close>

fun reset_all :: "ref list \<Rightarrow> heap \<Rightarrow> heap option" where
  "reset_all [] h = Some h"
| "reset_all (city # rest) h =
     (case reset_visited city h of None \<Rightarrow> None | Some h' \<Rightarrow> reset_all rest h')"

text \<open>The second loop of \<^verbatim>\<open>number_of_islands\<close>.\<close>

fun count_islands :: "ref list \<Rightarrow> heap \<Rightarrow> int \<Rightarrow> (int \<times> heap) option" where
  "count_islands [] h num_islands = Some (num_islands, h)"
| "count_islands (city # rest) h num_islands =
     (case deref h city of
        None \<Rightarrow> None
      | Some c \<Rightarrow>
          if \<not> visited c
          then (case depth_first_search city h of
                  None \<Rightarrow> None
                | Some (total_pop, h') \<Rightarrow> count_islands rest h' (num_islands + 1))
          else count_islands rest h num_islands)"

definition number_of_islands :: "heap \<Rightarrow> ref list \<Rightarrow> (int \<times> heap) option" where
  "number_of_islands h city_objects =
     (case reset_all city_objects h of
        None \<Rightarrow> None
      | Some h0 \<Rightarrow> count_islands city_objects h0 0)"

text \<open>The second loop of \<^verbatim>\<open>island_populations\<close>.\<close>

fun collect_populations :: "ref list \<Rightarrow> heap \<Rightarrow> int list \<Rightarrow> (int list \<times> heap) option" where
  "collect_populations [] h populations = Some (populations, h)"
| "collect_populations (city # rest) h populations =
     (case deref h city of
        None \<Rightarrow> None
      | Some c \<Rightarrow>
          if \<not> visited c
          then (case depth_first_search city h of
                  None \<Rightarrow> None
                | Some (total_pop, h') \<Rightarrow>
                    collect_populations rest h' (populations @ [total_pop]))
          else collect_populations rest h populations)"

definition island_populations :: "heap \<Rightarrow> ref list \<Rightarrow> (int list \<times> heap) option" where
  "island_populations h city_objects =
     (case reset_all city_objects h of
        None \<Rightarrow> None
      | Some h0 \<Rightarrow> collect_populations city_objects h0 [])"

subsection \<open>Breadth-first search\<close>

text \<open>
  The \<^verbatim>\<open>for\<close> loop of \<^verbatim>\<open>min_highways\<close> either returns from the function or falls
  through with the set \<open>seen\<close> (the local \<^verbatim>\<open>visited\<close> of the source) and the queue.
\<close>

datatype 'a flow = Return int | Continue 'a

fun scan_neighbors ::
  "ref \<Rightarrow> int \<Rightarrow> ref list \<Rightarrow> ref set \<times> (ref \<times> int) list \<Rightarrow> (ref set \<times> (ref \<times> int) list) flow" where
  "scan_neighbors end_city distance [] s = Continue s"
| "scan_neighbors end_city distance (neighbor # rest) (seen, queue) =
     (if neighbor = end_city then Return (distance + 1)
      else if neighbor \<notin> seen
        then scan_neighbors end_city distance rest
               (insert neighbor seen, queue @ [(neighbor, distance + 1)])
      else scan_neighbors end_city distance rest (seen, queue))"

text \<open>The references that occur in a store bound the \<^verbatim>\<open>while queue\<close> loop.\<close>

definition mentioned :: "heap \<Rightarrow> ref set" where
  "mentioned h = (\<Union>c \<in> set h. set (connections c))"

lemma scan_neighbors_Continue:
  "scan_neighbors e d ns (seen, q) = Continue (seen', q') \<Longrightarrow>
     seen' = seen \<union> set ns \<and> (set ns \<subseteq> seen \<longrightarrow> q' = q)"
  by (induction ns arbitrary: seen q) (auto split: if_splits)

function bfs_while :: "heap \<Rightarrow> ref \<Rightarrow> (ref \<times> int) list \<Rightarrow> ref set \<Rightarrow> int option" where
  "bfs_while h end_city queue seen =
     (case queue of
        [] \<Rightarrow> Some (- 1)
      | (current_city, distance) # queue' \<Rightarrow>
          (case deref h current_city of
             None \<Rightarrow> None
           | Some c \<Rightarrow>
               (case scan_neighbors end_city distance (connections c) (seen, queue') of
                  Return d \<Rightarrow> Some d
                | Continue (seen', queue'') \<Rightarrow> bfs_while h end_city queue'' seen')))"
  by pat_completeness auto
termination
proof (relation "measures [\<lambda>(h, e, q, seen). card (mentioned h - seen), \<lambda>(h, e, q, seen). length q]", goal_cases)
  case 1
  then show ?case by simp
next
  case (2 h e queue seen x queue' cur dist c r seen' queue'')
  have fin: "finite (mentioned h)" by (simp add: mentioned_def)
  from 2 have c: "c \<in> set h" by (auto simp: deref_def split: if_splits)
  then have sub: "set (connections c) \<subseteq> mentioned h" by (auto simp: mentioned_def)
  from 2 have sc: "scan_neighbors e dist (connections c) (seen, queue') = Continue (seen', queue'')"
    by simp
  note k = scan_neighbors_Continue[OF sc]
  show ?case
  proof (cases "set (connections c) \<subseteq> seen")
    case True
    with k have "seen' = seen" "queue'' = queue'" by auto
    then show ?thesis using 2 by simp
  next
    case False
    then obtain n where n: "n \<in> set (connections c)" "n \<notin> seen" by auto
    have "mentioned h - seen' \<subset> mentioned h - seen"
      using k n sub by auto
    then have "card (mentioned h - seen') < card (mentioned h - seen)"
      using fin by (simp add: psubset_card_mono)
    then show ?thesis by simp
  qed
qed

text \<open>\<^verbatim>\<open>min_highways\<close>; it reads the connections only, so it returns no store.\<close>

definition min_highways :: "heap \<Rightarrow> ref \<Rightarrow> ref \<Rightarrow> int option" where
  "min_highways h start_city end_city =
     (if start_city = end_city then Some 0
      else bfs_while h end_city [(start_city, 0)] {start_city})"

section \<open>Records of the two texts\<close>

text \<open>
  What a line of either text contributes, read off the two loops of \<^verbatim>\<open>build_graph\<close>:
  a population line yields a name and a number or nothing, a road line two names or
  nothing. \<open>join_nl\<close> is \<^verbatim>\<open>'\n'.join\<close>, used to write texts line by line.
\<close>

definition pop_record :: "string \<Rightarrow> (string \<times> int) option" where
  "pop_record raw =
     (case split_sep (strip raw) of
        [a, b] \<Rightarrow> (case py_int (strip b) of Inl e \<Rightarrow> None | Inr p \<Rightarrow> Some (strip a, p))
      | _ \<Rightarrow> None)"

definition road_record :: "string \<Rightarrow> (string \<times> string) option" where
  "road_record raw =
     (case split_sep (strip raw) of [a, b] \<Rightarrow> Some (strip a, strip b) | _ \<Rightarrow> None)"

definition pop_records :: "string \<Rightarrow> (string \<times> int) list" where
  "pop_records pop_data = List.map_filter pop_record (split_nl pop_data)"

definition registered :: "string \<Rightarrow> string set" where
  "registered pop_data = fst ` set (pop_records pop_data)"

fun join_nl :: "string list \<Rightarrow> string" where
  "join_nl [] = []"
| "join_nl [l] = l"
| "join_nl (l # ls) = l @ CHR 0x0A # join_nl ls"

lemma split_sep_nonempty: "split_sep s \<noteq> []"
  by (induction s rule: split_sep.induct) (auto split: list.splits)

lemma split_sep_Nil: "split_sep [] = [[]]"
  by simp

lemma pop_line_record:
  "pop_line raw st =
     (case pop_record raw of
        None \<Rightarrow> st
      | Some (n, p) \<Rightarrow> (fst st @ [new_City n p], AList.update n (length (fst st)) (snd st)))"
proof (cases "strip raw = []")
  case True
  then show ?thesis by (simp add: pop_line_def pop_record_def)
next
  case False
  then show ?thesis
    by (simp add: pop_line_def pop_record_def pop_try_def unpack2_def
             split: list.splits sum.splits error.splits)
qed

lemma road_line_record:
  "road_line raw st =
     (case road_record raw of
        None \<Rightarrow> st
      | Some (a, b) \<Rightarrow>
          (case (map_of (snd st) a, map_of (snd st) b) of
             (Some city1, Some city2) \<Rightarrow>
               (add_connection city2 city1 (add_connection city1 city2 (fst st)), snd st)
           | _ \<Rightarrow> st))"
proof (cases "strip raw = []")
  case True
  then show ?thesis by (simp add: road_line_def road_record_def)
next
  case False
  then show ?thesis
    by (cases st)
       (auto simp: road_line_def road_record_def road_try_def unpack2_def
             split: list.splits sum.splits error.splits option.splits)
qed

lemma split_nl_nonempty: "split_nl s \<noteq> []"
  by (induction s) (auto split: list.splits)

lemma split_nl_append: "split_nl (a @ CHR 0x0A # b) = split_nl a @ split_nl b"
  by (induction a) (auto simp: split_nl_nonempty split: list.splits)

lemma split_nl_no_nl: "CHR 0x0A \<notin> set l \<Longrightarrow> split_nl l = [l]"
  by (induction l) auto

lemma split_nl_join:
  "ls \<noteq> [] \<Longrightarrow> split_nl (join_nl ls) = concat (map split_nl ls)"
  by (induction ls rule: join_nl.induct) (auto simp: split_nl_append)

lemma pop_record_blank: "pop_record [] = None"
  by (simp add: pop_record_def strip_def)

lemma road_record_blank: "road_record [] = None"
  by (simp add: road_record_def strip_def)

lemma fold_pop_join:
  "fold pop_line (split_nl (join_nl ls)) st = fold pop_line (concat (map split_nl ls)) st"
  by (cases "ls = []") (simp_all add: split_nl_join pop_line_record pop_record_blank)

lemma fold_road_join:
  "fold road_line (split_nl (join_nl ls)) st = fold road_line (concat (map split_nl ls)) st"
  by (cases "ls = []") (simp_all add: split_nl_join road_line_record road_record_blank)

lemma pop_skip:
  assumes "CHR 0x0A \<notin> set l" "pop_record l = None"
  shows "fold pop_line (split_nl (join_nl (ps1 @ [l] @ ps2))) st =
         fold pop_line (split_nl (join_nl (ps1 @ ps2))) st"
  using assms by (simp add: fold_pop_join split_nl_no_nl pop_line_record)

lemma road_skip:
  assumes "CHR 0x0A \<notin> set l" "road_line l (fold road_line (concat (map split_nl rs1)) st) = fold road_line (concat (map split_nl rs1)) st"
  shows "fold road_line (split_nl (join_nl (rs1 @ [l] @ rs2))) st =
         fold road_line (split_nl (join_nl (rs1 @ rs2))) st"
  using assms by (simp add: fold_road_join split_nl_no_nl)


section \<open>The two loops, record by record\<close>

text \<open>
  \<open>first_seen\<close> keeps the first occurrence of every element, in order; it is the
  order of the keys of a Python dictionary filled from the list.
\<close>

definition road_records :: "string \<Rightarrow> (string \<times> string) list" where
  "road_records road_data = List.map_filter road_record (split_nl road_data)"

primrec first_seen :: "'a list \<Rightarrow> 'a list" where
  "first_seen [] = []"
| "first_seen (x # xs) = x # removeAll x (first_seen xs)"

definition pop_step :: "string \<times> int \<Rightarrow> builder \<Rightarrow> builder" where
  "pop_step rec st =
     (fst st @ [new_City (fst rec) (snd rec)],
      AList.update (fst rec) (length (fst st)) (snd st))"

definition road_step :: "string \<times> string \<Rightarrow> builder \<Rightarrow> builder" where
  "road_step rec st =
     (case (map_of (snd st) (fst rec), map_of (snd st) (snd rec)) of
        (Some city1, Some city2) \<Rightarrow>
          (add_connection city2 city1 (add_connection city1 city2 (fst st)), snd st)
      | _ \<Rightarrow> st)"

lemma fold_pop_records:
  "fold pop_line ls st = fold pop_step (List.map_filter pop_record ls) st"
  by (induction ls arbitrary: st)
     (auto simp: pop_line_record pop_step_def List.map_filter_simps split: option.splits)

lemma fold_road_records:
  "fold road_line ls st = fold road_step (List.map_filter road_record ls) st"
  by (induction ls arbitrary: st)
     (auto simp: road_line_record road_step_def List.map_filter_simps split: option.splits)

lemma set_first_seen: "set (first_seen xs) = set xs"
  by (induction xs) auto

lemma distinct_first_seen: "distinct (first_seen xs)"
  by (induction xs) (auto simp: distinct_removeAll)

lemma first_seen_snoc:
  "first_seen (xs @ [y]) = (if y \<in> set xs then first_seen xs else first_seen xs @ [y])"
  by (induction xs) (auto simp: set_first_seen)

lemma set_update_subset: "set (AList.update k v al) \<subseteq> insert (k, v) (set al)"
  by (induction al) auto

definition pop_inv :: "(string \<times> int) list \<Rightarrow> builder \<Rightarrow> bool" where
  "pop_inv recs st \<longleftrightarrow>
     map fst (snd st) = first_seen (map fst recs) \<and>
     distinct (map snd (snd st)) \<and>
     (\<forall>(n, r) \<in> set (snd st). r < length (fst st) \<and> name (fst st ! r) = n \<and>
        map_of (rev recs) n = Some (population (fst st ! r))) \<and>
     (\<forall>c \<in> set (fst st). connections c = [])"

lemma pop_inv_step:
  assumes "pop_inv recs st"
  shows "pop_inv (recs @ [rec]) (pop_step rec st)"
proof -
  obtain h cm where st: "st = (h, cm)" by (cases st)
  obtain n p where rec: "rec = (n, p)" by (cases rec)
  from assms st have keys: "map fst cm = first_seen (map fst recs)"
    and dv: "distinct (map snd cm)"
    and ent: "\<And>k r. (k, r) \<in> set cm \<Longrightarrow> r < length h \<and> name (h ! r) = k \<and>
        map_of (rev recs) k = Some (population (h ! r))"
    and conn: "\<And>c. c \<in> set h \<Longrightarrow> connections c = []"
    by (auto simp: pop_inv_def)
  have dk: "distinct (map fst cm)" using keys by (simp add: distinct_first_seen)
  have lt: "\<And>r. r \<in> snd ` set cm \<Longrightarrow> r < length h" using ent by auto
  have k1: "map fst (AList.update n (length h) cm) = first_seen (map fst (recs @ [rec]))"
    using keys set_first_seen[of "map fst recs"]
    by (simp add: update_keys first_seen_snoc rec del: set_map) 
  have k2: "distinct (map snd (AList.update n (length h) cm))"
  proof -
    show ?thesis
      using dv lt
    proof (induction cm)
      case Nil
      then show ?case by simp
    next
      case (Cons a cm)
      have "length h \<notin> snd ` set cm" using Cons.prems(2) by fastforce
      moreover have "snd ` set (AList.update n (length h) cm) \<subseteq> insert (length h) (snd ` set cm)"
        using set_update_subset[of n "length h" cm] by auto
      moreover have "snd a \<noteq> length h" using Cons.prems(2)[of "snd a"] by auto
      ultimately show ?case using Cons by (auto simp: rev_image_eqI)
    qed
  qed
  have k3: "r < length (h @ [new_City n p]) \<and> name ((h @ [new_City n p]) ! r) = k \<and>
        map_of (rev (recs @ [rec])) k = Some (population ((h @ [new_City n p]) ! r))"
    if "(k, r) \<in> set (AList.update n (length h) cm)" for k r
  proof (cases "k = n")
    case True
    have "map_of (AList.update n (length h) cm) k = Some r"
      using that dk by (simp add: distinct_update)
    then have "r = length h" using True by (simp add: update_conv)
    then show ?thesis using True by (simp add: rec new_City_def)
  next
    case False
    then have "(k, r) \<in> set cm" using that set_update_subset[of n "length h" cm] by auto
    from ent[OF this] show ?thesis using False by (simp add: rec nth_append)
  qed
  have k4: "\<And>c. c \<in> set (h @ [new_City n p]) \<Longrightarrow> connections c = []"
    using conn by (auto simp: new_City_def)
  show ?thesis
    unfolding pop_inv_def pop_step_def st rec using k1 k2 k3 k4 by (auto simp: rec)
qed

lemma pop_inv_fold: "pop_inv recs (fold pop_step recs ([], []))"
proof (induction recs rule: rev_induct)
  case Nil
  then show ?case by (simp add: pop_inv_def)
next
  case (snoc x xs)
  then show ?case by (simp add: pop_inv_step)
qed


section \<open>The road loop\<close>

lemma length_add_connection [simp]: "length (add_connection s c h) = length h"
  by (simp add: add_connection_def)

lemma add_connection_nth:
  "add_connection s c h ! r =
     (if r = s \<and> s < length h \<and> c \<notin> set (connections (h ! s))
      then (h ! s)\<lparr>connections := connections (h ! s) @ [c]\<rparr> else h ! r)"
proof (cases "s < length h")
  case True
  then show ?thesis by (simp add: add_connection_def nth_list_update)
next
  case False
  then have "h[s := x] = h" for x by (simp add: list_update_beyond)
  then have "add_connection s c h = h" by (simp add: add_connection_def)
  then show ?thesis using False by simp
qed

lemma add_connection_fields:
  "name (add_connection s c h ! r) = name (h ! r)"
  "population (add_connection s c h ! r) = population (h ! r)"
  "visited (add_connection s c h ! r) = visited (h ! r)"
  by (simp_all add: add_connection_nth)

lemma add_connection_set:
  "set (connections (add_connection s c h ! r)) =
     set (connections (h ! r)) \<union> (if r = s \<and> s < length h then {c} else {})"
  by (auto simp: add_connection_nth)

text \<open>
  The edges the road records ask for, between the cities of the dictionary: the
  neighbours of \<open>r\<close> are the cities named on the other side of a record that names \<open>r\<close>.
\<close>

definition wanted :: "(string \<times> ref) list \<Rightarrow> (string \<times> string) list \<Rightarrow> ref \<Rightarrow> ref set" where
  "wanted cm recs r =
     {b. \<exists>na nb. (na, r) \<in> set cm \<and> (nb, b) \<in> set cm \<and>
                  ((na, nb) \<in> set recs \<or> (nb, na) \<in> set recs)}"

definition road_inv :: "heap \<Rightarrow> (string \<times> string) list \<Rightarrow> builder \<Rightarrow> bool" where
  "road_inv h0 recs st \<longleftrightarrow>
     length (fst st) = length h0 \<and>
     (\<forall>r. name (fst st ! r) = name (h0 ! r) \<and> population (fst st ! r) = population (h0 ! r)
          \<and> visited (fst st ! r) = visited (h0 ! r)) \<and>
     (\<forall>r < length h0. set (connections (fst st ! r)) = wanted (snd st) recs r)"

lemma road_step_snd [simp]: "snd (road_step rec st) = snd st"
  by (simp add: road_step_def split: option.splits)

lemma fold_road_step_snd [simp]: "snd (fold road_step recs st) = snd st"
  by (induction recs arbitrary: st) auto

lemma wanted_snoc:
  assumes dk: "distinct (map fst cm)"
  shows "wanted cm (recs @ [(a, b)]) r =
     wanted cm recs r \<union>
       {y. (map_of cm a = Some r \<and> map_of cm b = Some y) \<or>
           (map_of cm b = Some r \<and> map_of cm a = Some y)}"
proof -
  have iff: "\<And>k v. (k, v) \<in> set cm \<longleftrightarrow> map_of cm k = Some v"
    using dk by (auto dest: map_of_SomeD)
  have "y \<in> wanted cm (recs @ [(a, b)]) r \<longleftrightarrow>
        y \<in> wanted cm recs r \<or> (map_of cm a = Some r \<and> map_of cm b = Some y) \<or>
           (map_of cm b = Some r \<and> map_of cm a = Some y)" for y
  proof -
    have "y \<in> wanted cm (recs @ [(a, b)]) r \<longleftrightarrow>
        (\<exists>na nb. map_of cm na = Some r \<and> map_of cm nb = Some y \<and>
           (((na, nb) \<in> set recs \<or> (nb, na) \<in> set recs) \<or> (na = a \<and> nb = b) \<or> (nb = a \<and> na = b)))"
      unfolding wanted_def iff by auto
    also have "\<dots> \<longleftrightarrow> (\<exists>na nb. map_of cm na = Some r \<and> map_of cm nb = Some y \<and>
           ((na, nb) \<in> set recs \<or> (nb, na) \<in> set recs)) \<or>
           (map_of cm a = Some r \<and> map_of cm b = Some y) \<or>
           (map_of cm b = Some r \<and> map_of cm a = Some y)"
      by blast
    also have "(\<exists>na nb. map_of cm na = Some r \<and> map_of cm nb = Some y \<and>
           ((na, nb) \<in> set recs \<or> (nb, na) \<in> set recs)) \<longleftrightarrow> y \<in> wanted cm recs r"
      unfolding wanted_def iff by simp
    finally show ?thesis .
  qed
  then show ?thesis by blast
qed

lemma road_inv_step:
  assumes inv: "road_inv h0 recs st" and dk: "distinct (map fst (snd st))"
    and lt: "\<And>k v. (k, v) \<in> set (snd st) \<Longrightarrow> v < length h0"
  shows "road_inv h0 (recs @ [rec]) (road_step rec st)"
proof -
  obtain h cm where st: "st = (h, cm)" by (cases st)
  obtain a b where rec: "rec = (a, b)" by (cases rec)
  from inv st have len: "length h = length h0"
    and flds: "\<And>r. name (h ! r) = name (h0 ! r) \<and> population (h ! r) = population (h0 ! r)
          \<and> visited (h ! r) = visited (h0 ! r)"
    and conn: "\<And>r. r < length h0 \<Longrightarrow> set (connections (h ! r)) = wanted cm recs r"
    by (auto simp: road_inv_def)
  from dk st have dk': "distinct (map fst cm)" by simp
  show ?thesis
  proof (cases "\<exists>x y. map_of cm a = Some x \<and> map_of cm b = Some y")
    case True
    then obtain x y where xy: "map_of cm a = Some x" "map_of cm b = Some y" by auto
    then have xl: "x < length h" and yl: "y < length h"
      using lt[of a x] lt[of b y] st len by (auto dest: map_of_SomeD)
    define h' where "h' = add_connection y x (add_connection x y h)"
    have step: "road_step (a, b) (h, cm) = (h', cm)"
      by (simp add: road_step_def xy h'_def)
    have c': "set (connections (h' ! r)) = wanted cm (recs @ [(a, b)]) r" if "r < length h0" for r
    proof -
      have "set (connections (h' ! r)) =
          set (connections (h ! r)) \<union> (if r = x then {y} else {}) \<union> (if r = y then {x} else {})"
        unfolding h'_def using xl yl by (simp add: add_connection_set Un_assoc)
      also have "\<dots> = wanted cm recs r \<union> {z. (map_of cm a = Some r \<and> map_of cm b = Some z) \<or>
           (map_of cm b = Some r \<and> map_of cm a = Some z)}"
        using conn[OF that] xy by auto
      finally show ?thesis by (simp add: wanted_snoc[OF dk'])
    qed
    have f': "name (h' ! r) = name (h0 ! r) \<and> population (h' ! r) = population (h0 ! r)
          \<and> visited (h' ! r) = visited (h0 ! r)" for r
      unfolding h'_def using flds[of r] by (simp add: add_connection_fields)
    have "length h' = length h0" by (simp add: h'_def len)
    then show ?thesis
      unfolding road_inv_def st rec step using c' f' by simp
  next
    case False
    then have "road_step rec st = st"
      by (auto simp: road_step_def st rec split: option.splits)
    moreover have "\<And>r. wanted cm (recs @ [(a, b)]) r = wanted cm recs r"
      using False by (auto simp: wanted_snoc[OF dk'])
    ultimately show ?thesis
      using inv unfolding road_inv_def st rec by simp
  qed
qed

lemma road_inv_fold:
  assumes dk: "distinct (map fst cm)"
    and lt: "\<And>k v. (k, v) \<in> set cm \<Longrightarrow> v < length h0"
    and e: "\<And>c. c \<in> set h0 \<Longrightarrow> connections c = []"
  shows "road_inv h0 recs (fold road_step recs (h0, cm))"
proof (induction recs rule: rev_induct)
  case Nil
  then show ?case using e by (simp add: road_inv_def wanted_def)
next
  case (snoc x xs)
  then show ?case using road_inv_step[of h0 xs "fold road_step xs (h0, cm)" x] dk lt
    by simp
qed


text \<open>What \<^verbatim>\<open>build_graph\<close> returns, in terms of the records of its two texts.\<close>

lemma build_graph_char:
  assumes "build_graph pop_data road_data = (h, cs)"
  shows "\<exists>cm. cs = map snd cm \<and>
           map fst cm = first_seen (map fst (pop_records pop_data)) \<and>
           distinct cs \<and>
           (\<forall>(n, r) \<in> set cm. r < length h \<and> name (h ! r) = n \<and>
               map_of (rev (pop_records pop_data)) n = Some (population (h ! r))) \<and>
           (\<forall>r < length h. set (connections (h ! r)) = wanted cm (road_records road_data) r)"
proof -
  define st1 where "st1 = fold pop_step (pop_records pop_data) ([], [])"
  define st2 where "st2 = fold road_step (road_records road_data) st1"
  have p: "pop_inv (pop_records pop_data) st1"
    unfolding st1_def by (rule pop_inv_fold)
  have b: "h = fst st2" "cs = map snd (snd st1)"
    using assms
    by (auto simp: build_graph_def Let_def fold_pop_records fold_road_records
        st1_def st2_def pop_records_def road_records_def)
  have dk: "distinct (map fst (snd st1))"
    using p by (simp add: pop_inv_def distinct_first_seen)
  have r: "road_inv (fst st1) (road_records road_data) st2"
    unfolding st2_def
    using road_inv_fold[of "snd st1" "fst st1" "road_records road_data"] dk p
    by (auto simp: pop_inv_def)
  have s2: "snd st2 = snd st1" by (simp add: st2_def)
  have c1: "map fst (snd st1) = first_seen (map fst (pop_records pop_data))"
    using p by (simp add: pop_inv_def)
  have c2: "distinct cs" using p b by (simp add: pop_inv_def)
  have c3: "\<forall>(n, r) \<in> set (snd st1). r < length h \<and> name (h ! r) = n \<and>
               map_of (rev (pop_records pop_data)) n = Some (population (h ! r))"
  proof -
    have "r < length h \<and> name (h ! r) = n \<and>
               map_of (rev (pop_records pop_data)) n = Some (population (h ! r))"
      if "(n, r) \<in> set (snd st1)" for n r
    proof -
      from p that have "r < length (fst st1)" "name (fst st1 ! r) = n"
        "map_of (rev (pop_records pop_data)) n = Some (population (fst st1 ! r))"
        by (auto simp: pop_inv_def)
      moreover from r have "length (fst st2) = length (fst st1)"
        "name (fst st2 ! r) = name (fst st1 ! r)"
        "population (fst st2 ! r) = population (fst st1 ! r)"
        by (simp_all add: road_inv_def)
      ultimately show ?thesis using b by simp
    qed
    then show ?thesis by blast
  qed
  have c4: "\<forall>r < length h. set (connections (h ! r)) = wanted (snd st1) (road_records road_data) r"
    using r b s2 by (simp add: road_inv_def)
  show ?thesis
    using b(2) c1 c2 c3 c4 by blast
qed


section \<open>Properties of the built graph\<close>

text \<open>
  What the traversals rely on: the cities of the list are distinct objects of the
  store, their connections stay inside the list, and the relation is symmetric.
\<close>

definition well_formed :: "heap \<Rightarrow> ref list \<Rightarrow> bool" where
  "well_formed h cs \<longleftrightarrow>
     distinct cs \<and>
     (\<forall>c \<in> set cs. c < length h \<and> set (connections (h ! c)) \<subseteq> set cs) \<and>
     (\<forall>a \<in> set cs. \<forall>b \<in> set (connections (h ! a)). a \<in> set (connections (h ! b)))"

lemma wanted_sym: "b \<in> wanted cm recs a \<Longrightarrow> a \<in> wanted cm recs b"
  unfolding wanted_def by blast

lemma wanted_range: "b \<in> wanted cm recs a \<Longrightarrow> b \<in> snd ` set cm"
  unfolding wanted_def by force

lemma build_graph_well_formed:
  assumes "build_graph pop_data road_data = (h, cs)"
  shows "well_formed h cs"
proof -
  from build_graph_char[OF assms] obtain cm where
    cs: "cs = map snd cm" and d: "distinct cs"
    and ent: "\<forall>(n, r) \<in> set cm. r < length h \<and> name (h ! r) = n \<and>
               map_of (rev (pop_records pop_data)) n = Some (population (h ! r))"
    and conn: "\<forall>r < length h. set (connections (h ! r)) = wanted cm (road_records road_data) r"
    by blast
  have lt: "c < length h" if "c \<in> set cs" for c
    using that ent cs by auto
  have sub: "set (connections (h ! c)) \<subseteq> set cs" if "c \<in> set cs" for c
    using conn lt[OF that] wanted_range[of _ cm "road_records road_data" c] cs by auto
  have sym: "a \<in> set (connections (h ! b))" if "a \<in> set cs" "b \<in> set (connections (h ! a))" for a b
  proof -
    have "b \<in> wanted cm (road_records road_data) a" using conn lt[OF that(1)] that(2) by simp
    then have "a \<in> wanted cm (road_records road_data) b" by (rule wanted_sym)
    moreover have "b < length h" using sub[OF that(1)] that(2) lt by blast
    ultimately show ?thesis using conn by simp
  qed
  show ?thesis unfolding well_formed_def using d lt sub sym by blast
qed

lemma build_registered:
  "fst ` set (snd (fold pop_line (split_nl pop_data) ([], []))) = registered pop_data"
proof -
  have "pop_inv (pop_records pop_data) (fold pop_line (split_nl pop_data) ([], []))"
    unfolding fold_pop_records pop_records_def by (rule pop_inv_fold)
  then have "map fst (snd (fold pop_line (split_nl pop_data) ([], []))) =
      first_seen (map fst (pop_records pop_data))"
    by (simp add: pop_inv_def)
  then have "set (map fst (snd (fold pop_line (split_nl pop_data) ([], [])))) =
      set (map fst (pop_records pop_data))"
    by (simp only: set_first_seen)
  then show ?thesis by (simp add: registered_def)
qed

lemma fold_road_line_snd: "snd (fold road_line ls st) = snd st"
  by (simp add: fold_road_records)

lemma road_line_unknown:
  assumes "road_record l = Some (a, b)" "a \<notin> fst ` set (snd st) \<or> b \<notin> fst ` set (snd st)"
  shows "road_line l st = st"
proof -
  have "map_of (snd st) a = None \<or> map_of (snd st) b = None"
    using assms(2) by (simp add: map_of_eq_None_iff)
  then show ?thesis using assms(1) by (auto simp: road_line_record split: option.splits)
qed

lemma road_line_malformed: "road_record l = None \<Longrightarrow> road_line l st = st"
  by (simp add: road_line_record)

lemma pop_record_None_iff:
  "pop_record l = None \<longleftrightarrow>
     length (split_sep (strip l)) \<noteq> 2 \<or> (\<exists>e. py_int (strip (split_sep (strip l) ! 1)) = Inl e)"
proof (cases "split_sep (strip l)")
  case Nil
  then show ?thesis by (simp add: split_sep_nonempty)
next
  case (Cons a as)
  then show ?thesis
    by (cases as; cases "tl as") (auto simp: pop_record_def split: sum.splits)
qed

lemma road_record_None_iff:
  "road_record l = None \<longleftrightarrow> length (split_sep (strip l)) \<noteq> 2"
proof (cases "split_sep (strip l)")
  case Nil
  then show ?thesis by (simp add: split_sep_nonempty)
next
  case (Cons a as)
  then show ?thesis
    by (cases as; cases "tl as") (auto simp: road_record_def)
qed


section \<open>Claims about the builder\<close>

subsection \<open>Three small graphs\<close>

lemma build_two_cities:
  "build_graph (join_nl [''A : 1'', ''B : 2'']) ''A : B'' =
     ([\<lparr>name = ''A'', population = 1, connections = [1], visited = False\<rparr>,
       \<lparr>name = ''B'', population = 2, connections = [0], visited = False\<rparr>], [0, 1])"
  by code_simp

lemma build_self_road:
  "build_graph ''A : 1'' ''A : A'' =
     ([\<lparr>name = ''A'', population = 1, connections = [0], visited = False\<rparr>], [0])"
  by code_simp

lemma build_redeclared:
  "build_graph (join_nl [''A : 1'', ''B : 2'', ''A : 3'']) ''A : B'' =
     ([\<lparr>name = ''A'', population = 1, connections = [], visited = False\<rparr>,
       \<lparr>name = ''B'', population = 2, connections = [2], visited = False\<rparr>,
       \<lparr>name = ''A'', population = 3, connections = [1], visited = False\<rparr>], [2, 1])"
  by code_simp

text \<open>
  Claim C4. In every graph built by \<^verbatim>\<open>build_graph\<close> the neighbor relation is symmetric:
  for any two cities \<open>a\<close> and \<open>b\<close> of the graph, if \<open>b\<close> is in the connections of \<open>a\<close>
  then \<open>a\<close> is in the connections of \<open>b\<close>.
\<close>

theorem connections_symmetric:
  assumes "build_graph pop_data road_data = (h, cs)"
    and "a \<in> set cs" and "b \<in> set cs" and "b \<in> set (connections (h ! a))"
  shows "a \<in> set (connections (h ! b))"
  using build_graph_well_formed[OF assms(1)] assms(2,4) unfolding well_formed_def by blast

theorem connections_symmetric_witness:
  "build_graph (join_nl [''A : 1'', ''B : 2'']) ''A : B'' =
     ([\<lparr>name = ''A'', population = 1, connections = [1], visited = False\<rparr>,
       \<lparr>name = ''B'', population = 2, connections = [0], visited = False\<rparr>], [0, 1]) \<and>
   (0::nat) \<in> set [0, 1] \<and> (1::nat) \<in> set [0, 1] \<and>
   1 \<in> set (connections ([\<lparr>name = ''A'', population = 1, connections = [1], visited = False\<rparr>,
       \<lparr>name = ''B'', population = 2, connections = [0], visited = False\<rparr>] ! 0)) \<and>
   0 \<in> set (connections ([\<lparr>name = ''A'', population = 1, connections = [1], visited = False\<rparr>,
       \<lparr>name = ''B'', population = 2, connections = [0], visited = False\<rparr>] ! 1))"
  using connections_symmetric[OF build_two_cities, of 0 1] build_two_cities by simp

text \<open>
  Claim C5 says that no city of a built graph is in its own connections, also when a
  road line names the same city on both sides. The road line \<^verbatim>\<open>A : A\<close> makes \<open>A\<close> its
  own neighbor.
\<close>

theorem self_loop_counterexample:
  "snd (build_graph ''A : 1'' ''A : A'') = [0] \<and>
   0 \<in> set (connections (fst (build_graph ''A : 1'' ''A : A'') ! 0))"
  by (simp add: build_self_road)

text \<open>
  Claim C5, amended. A city of a built graph is in its own connections exactly when
  some road line names that city on both sides; without such a line the builder
  creates no self-loop.
\<close>

theorem self_loop_iff:
  assumes "build_graph pop_data road_data = (h, cs)" and "c \<in> set cs"
  shows "c \<in> set (connections (h ! c)) \<longleftrightarrow>
         (name (h ! c), name (h ! c)) \<in> set (road_records road_data)"
proof -
  from build_graph_char[OF assms(1)] obtain cm where
    cs: "cs = map snd cm"
    and ent: "\<forall>(n, r) \<in> set cm. r < length h \<and> name (h ! r) = n \<and>
               map_of (rev (pop_records pop_data)) n = Some (population (h ! r))"
    and conn: "\<forall>r < length h. set (connections (h ! r)) = wanted cm (road_records road_data) r"
    by blast
  from assms(2) cs obtain n where n: "(n, c) \<in> set cm" by auto
  have nm: "k = name (h ! c)" if "(k, c) \<in> set cm" for k using ent that by auto
  have "c < length h" using ent n by auto
  then have "c \<in> set (connections (h ! c)) \<longleftrightarrow> c \<in> wanted cm (road_records road_data) c"
    using conn by simp
  also have "\<dots> \<longleftrightarrow> (name (h ! c), name (h ! c)) \<in> set (road_records road_data)"
    unfolding wanted_def using nm n by auto
  finally show ?thesis .
qed

theorem self_loop_iff_witness:
  "build_graph ''A : 1'' ''A : A'' =
     ([\<lparr>name = ''A'', population = 1, connections = [0], visited = False\<rparr>], [0]) \<and>
   (0::nat) \<in> set [0] \<and>
   (''A'', ''A'') \<in> set (road_records ''A : A'')"
  using self_loop_iff[OF build_self_road, of 0] build_self_road by simp

text \<open>
  Claim C8. A road line that names at least one city not registered from the
  population data creates no edge: the graph built with the line is the graph built
  without it (same cities, same connections), and no error is raised.
\<close>

theorem unknown_city_road_dropped:
  assumes "CHR 0x0A \<notin> set l" and "road_record l = Some (a, b)"
    and "a \<notin> registered pop_data \<or> b \<notin> registered pop_data"
  shows "build_graph pop_data (join_nl (rs1 @ [l] @ rs2)) =
         build_graph pop_data (join_nl (rs1 @ rs2))"
proof -
  define st1 where "st1 = fold pop_line (split_nl pop_data) ([], [])"
  define st where "st = fold road_line (concat (map split_nl rs1)) st1"
  have "fst ` set (snd st) = registered pop_data"
    unfolding st_def st1_def by (simp add: fold_road_line_snd build_registered)
  then have "road_line l st = st"
    using road_line_unknown[OF assms(2), of st] assms(3) by simp
  then have "fold road_line (split_nl (join_nl (rs1 @ [l] @ rs2))) st1 =
             fold road_line (split_nl (join_nl (rs1 @ rs2))) st1"
    unfolding st_def using assms(1) by (rule road_skip[rotated])
  then show ?thesis by (simp add: build_graph_def st1_def)
qed

theorem unknown_city_road_dropped_witness:
  "CHR 0x0A \<notin> set ''Z : A'' \<and> road_record ''Z : A'' = Some (''Z'', ''A'') \<and>
   ''Z'' \<notin> registered (join_nl [''A : 1'', ''B : 2'']) \<and>
   build_graph (join_nl [''A : 1'', ''B : 2'']) (join_nl [''Z : A'', ''A : B'']) =
     ([\<lparr>name = ''A'', population = 1, connections = [1], visited = False\<rparr>,
       \<lparr>name = ''B'', population = 2, connections = [0], visited = False\<rparr>], [0, 1])"
proof -
  have l: "CHR 0x0A \<notin> set ''Z : A''" by simp
  have r: "road_record ''Z : A'' = Some (''Z'', ''A'')" by code_simp
  have z: "''Z'' \<notin> registered (join_nl [''A : 1'', ''B : 2''])" by code_simp
  show ?thesis
    using unknown_city_road_dropped[OF l r, of "join_nl [''A : 1'', ''B : 2'']" "[]" "[''A : B'']"]
      l r z build_two_cities by simp
qed

text \<open>
  Claim C9. A population line that does not split into exactly two parts around the
  separator or whose number is not a valid integer, and a road line that does not split
  into exactly two parts, are skipped: the graph built with the line is the graph built
  without it, whatever the other lines are.
\<close>

theorem malformed_lines_skipped:
  assumes "CHR 0x0A \<notin> set l"
  shows "(length (split_sep (strip l)) \<noteq> 2 \<or>
            (\<exists>e. py_int (strip (split_sep (strip l) ! 1)) = Inl e) \<longrightarrow>
          build_graph (join_nl (ps1 @ [l] @ ps2)) road_data =
          build_graph (join_nl (ps1 @ ps2)) road_data) \<and>
         (length (split_sep (strip l)) \<noteq> 2 \<longrightarrow>
          build_graph pop_data (join_nl (rs1 @ [l] @ rs2)) =
          build_graph pop_data (join_nl (rs1 @ rs2)))"
proof (intro conjI impI)
  assume "length (split_sep (strip l)) \<noteq> 2 \<or>
            (\<exists>e. py_int (strip (split_sep (strip l) ! 1)) = Inl e)"
  then have "pop_record l = None" by (simp add: pop_record_None_iff)
  then show "build_graph (join_nl (ps1 @ [l] @ ps2)) road_data =
          build_graph (join_nl (ps1 @ ps2)) road_data"
    using pop_skip[OF assms, of ps1 ps2 "([], [])"] by (simp add: build_graph_def)
next
  assume "length (split_sep (strip l)) \<noteq> 2"
  then have "road_record l = None" by (simp add: road_record_None_iff)
  then have "fold road_line (split_nl (join_nl (rs1 @ [l] @ rs2))) st =
             fold road_line (split_nl (join_nl (rs1 @ rs2))) st" for st
    using road_skip[OF assms, of rs1 st rs2] by (simp add: road_line_malformed)
  then show "build_graph pop_data (join_nl (rs1 @ [l] @ rs2)) =
          build_graph pop_data (join_nl (rs1 @ rs2))"
    by (simp add: build_graph_def)
qed

theorem malformed_lines_skipped_witness:
  "CHR 0x0A \<notin> set ''C 3'' \<and> length (split_sep (strip ''C 3'')) \<noteq> 2 \<and>
   build_graph (join_nl [''A : 1'', ''C 3'', ''B : 2'']) ''A : B'' =
     ([\<lparr>name = ''A'', population = 1, connections = [1], visited = False\<rparr>,
       \<lparr>name = ''B'', population = 2, connections = [0], visited = False\<rparr>], [0, 1]) \<and>
   build_graph (join_nl [''A : 1'', ''B : 2'']) (join_nl [''C 3'', ''A : B'']) =
     ([\<lparr>name = ''A'', population = 1, connections = [1], visited = False\<rparr>,
       \<lparr>name = ''B'', population = 2, connections = [0], visited = False\<rparr>], [0, 1])"
proof -
  have l: "CHR 0x0A \<notin> set ''C 3''" by simp
  have m: "length (split_sep (strip ''C 3'')) \<noteq> 2" by code_simp
  show ?thesis
    using malformed_lines_skipped[OF l, of "[''A : 1'']" "[''B : 2'']" "''A : B''"
        "join_nl [''A : 1'', ''B : 2'']" "[]" "[''A : B'']"]
      l m build_two_cities by simp
qed

text \<open>
  Claim C10. The names of the returned cities are the names of the valid population
  lines, each once, in order of first occurrence; the population of a city is the
  number of the last valid line with its name; and every connection of a returned
  city is a returned city, so no edge refers to an object that a later line with the
  same name replaced.
\<close>

theorem redeclared_name:
  assumes "build_graph pop_data road_data = (h, cs)"
  shows "map (\<lambda>c. name (h ! c)) cs = first_seen (map fst (pop_records pop_data)) \<and>
         distinct (map (\<lambda>c. name (h ! c)) cs) \<and>
         (\<forall>c \<in> set cs. c < length h \<and>
            map_of (rev (pop_records pop_data)) (name (h ! c)) = Some (population (h ! c)) \<and>
            set (connections (h ! c)) \<subseteq> set cs)"
proof -
  from build_graph_char[OF assms] obtain cm where
    cs: "cs = map snd cm"
    and keys: "map fst cm = first_seen (map fst (pop_records pop_data))"
    and ent: "\<forall>(n, r) \<in> set cm. r < length h \<and> name (h ! r) = n \<and>
               map_of (rev (pop_records pop_data)) n = Some (population (h ! r))"
    by blast
  have "map (\<lambda>c. name (h ! c)) cs = map fst cm"
    unfolding cs using ent by auto
  then have names: "map (\<lambda>c. name (h ! c)) cs = first_seen (map fst (pop_records pop_data))"
    using keys by simp
  have pops: "c < length h \<and>
      map_of (rev (pop_records pop_data)) (name (h ! c)) = Some (population (h ! c))"
    if "c \<in> set cs" for c
    using that cs ent by auto
  have "well_formed h cs" using assms by (rule build_graph_well_formed)
  then have "\<And>c. c \<in> set cs \<Longrightarrow> set (connections (h ! c)) \<subseteq> set cs"
    unfolding well_formed_def by blast
  then show ?thesis using names pops by (simp add: distinct_first_seen)
qed

theorem redeclared_name_witness:
  "build_graph (join_nl [''A : 1'', ''B : 2'', ''A : 3'']) ''A : B'' =
     ([\<lparr>name = ''A'', population = 1, connections = [], visited = False\<rparr>,
       \<lparr>name = ''B'', population = 2, connections = [2], visited = False\<rparr>,
       \<lparr>name = ''A'', population = 3, connections = [1], visited = False\<rparr>], [2, 1]) \<and>
   pop_records (join_nl [''A : 1'', ''B : 2'', ''A : 3'']) = [(''A'', 1), (''B'', 2), (''A'', 3)] \<and>
   first_seen [''A'', ''B'', ''A''] = [''A'', ''B''] \<and>
   map_of (rev [(''A'', 1::int), (''B'', 2), (''A'', 3)]) ''A'' = Some 3"
proof -
  have r: "pop_records (join_nl [''A : 1'', ''B : 2'', ''A : 3'']) = [(''A'', 1), (''B'', 2), (''A'', 3)]"
    by code_simp
  show ?thesis
    using redeclared_name[OF build_redeclared] build_redeclared r by simp
qed

section \<open>Markers and closed sets of cities\<close>

text \<open>
  \<open>marked\<close> is the set of objects whose \<^verbatim>\<open>visited\<close> flag is set. Two stores are the
  \<open>same_graph\<close> when they differ in these flags only. A set of cities is \<open>closed\<close>
  when its members are objects of the store and their connections stay in the set.
\<close>

definition marked :: "heap \<Rightarrow> ref set" where
  "marked h = {r. r < length h \<and> visited (h ! r)}"

definition same_graph :: "heap \<Rightarrow> heap \<Rightarrow> bool" where
  "same_graph h h' \<longleftrightarrow>
     length h' = length h \<and>
     (\<forall>r < length h. name (h' ! r) = name (h ! r) \<and> population (h' ! r) = population (h ! r) \<and>
        connections (h' ! r) = connections (h ! r))"

definition closed :: "heap \<Rightarrow> ref set \<Rightarrow> bool" where
  "closed h S \<longleftrightarrow> (\<forall>c \<in> S. c < length h \<and> set (connections (h ! c)) \<subseteq> S)"

lemma same_graph_refl [simp]: "same_graph h h"
  by (simp add: same_graph_def)

lemma same_graph_trans: "same_graph h h1 \<Longrightarrow> same_graph h1 h2 \<Longrightarrow> same_graph h h2"
  by (simp add: same_graph_def)

lemma same_graph_closed: "same_graph h h' \<Longrightarrow> closed h S \<Longrightarrow> closed h' S"
  by (simp add: same_graph_def closed_def)

lemma finite_marked [simp]: "finite (marked h)"
  by (simp add: marked_def)

lemma same_graph_set_flag:
  "r < length h \<Longrightarrow> same_graph h (h[r := (h ! r)\<lparr>visited := b\<rparr>])"
  by (simp add: same_graph_def nth_list_update)

lemma marked_set_True:
  "r < length h \<Longrightarrow> marked (h[r := (h ! r)\<lparr>visited := True\<rparr>]) = insert r (marked h)"
  by (auto simp: marked_def nth_list_update)

lemma marked_set_False:
  "r < length h \<Longrightarrow> marked (h[r := (h ! r)\<lparr>visited := False\<rparr>]) = marked h - {r}"
  by (auto simp: marked_def nth_list_update)

lemma visit_neighbors_spec:
  assumes "\<forall>n \<in> set ns. n < length h"
  shows "\<exists>h' new. visit_neighbors ns (h, st, p) = Some (h', st @ new, p + (\<Sum>r\<leftarrow>new. population (h ! r)))
           \<and> same_graph h h' \<and> marked h' = marked h \<union> set ns
           \<and> set new = set ns - marked h \<and> distinct new"
  using assms
proof (induction ns arbitrary: h st p)
  case Nil
  then show ?case by simp
next
  case (Cons n ns)
  then have n: "n < length h" by simp
  show ?case
  proof (cases "visited (h ! n)")
    case True
    then have nm: "n \<in> marked h" using n by (simp add: marked_def)
    from Cons.IH[of h st p] Cons.prems obtain h' new where
      r: "visit_neighbors ns (h, st, p) = Some (h', st @ new, p + (\<Sum>r\<leftarrow>new. population (h ! r)))"
      "same_graph h h'" "marked h' = marked h \<union> set ns" "set new = set ns - marked h" "distinct new"
      by auto
    have "visit_neighbors (n # ns) (h, st, p) = visit_neighbors ns (h, st, p)"
      using True n by (simp add: deref_def)
    then show ?thesis using r nm by auto
  next
    case False
    define h1 where "h1 = h[n := (h ! n)\<lparr>visited := True\<rparr>]"
    have sg: "same_graph h h1" unfolding h1_def using n by (rule same_graph_set_flag)
    have m1: "marked h1 = insert n (marked h)" unfolding h1_def using n by (rule marked_set_True)
    have nm: "n \<notin> marked h" using False by (simp add: marked_def)
    have len: "length h1 = length h" by (simp add: h1_def)
    from Cons.IH[of h1 "st @ [n]" "p + population (h ! n)"] Cons.prems len obtain h' new where
      r: "visit_neighbors ns (h1, st @ [n], p + population (h ! n)) =
            Some (h', (st @ [n]) @ new, p + population (h ! n) + (\<Sum>r\<leftarrow>new. population (h1 ! r)))"
      "same_graph h1 h'" "marked h' = marked h1 \<union> set ns" "set new = set ns - marked h1" "distinct new"
      by auto
    have step: "visit_neighbors (n # ns) (h, st, p) =
        visit_neighbors ns (h1, st @ [n], p + population (h ! n))"
      using False n by (simp add: deref_def h1_def)
    have pops: "(\<Sum>r\<leftarrow>new. population (h1 ! r)) = (\<Sum>r\<leftarrow>new. population (h ! r))"
    proof (rule arg_cong[where f = sum_list], rule map_cong[OF refl])
      fix r assume "r \<in> set new"
      then have "r \<in> set ns" using r(4) by auto
      then have "r < length h" using Cons.prems by simp
      then show "population (h1 ! r) = population (h ! r)" using sg by (simp add: same_graph_def)
    qed
    have "visit_neighbors (n # ns) (h, st, p) =
        Some (h', st @ (n # new), p + (\<Sum>r\<leftarrow>n # new. population (h ! r)))"
      using step r(1) pops by simp
    moreover have "same_graph h h'" using sg r(2) by (rule same_graph_trans)
    moreover have "marked h' = marked h \<union> set (n # ns)" using r(3) m1 by auto
    moreover have "set (n # new) = set (n # ns) - marked h" using r(4) m1 nm by auto
    moreover have "distinct (n # new)" using r(4,5) m1 by auto
    ultimately show ?thesis by blast
  qed
qed


section \<open>What the depth-first search marks and returns\<close>

lemma dfs_while_spec:
  assumes "closed h S" and "set st \<subseteq> S"
  shows "\<exists>h'. dfs_while h st p = Some (p + (\<Sum>r \<in> marked h' - marked h. population (h ! r)), h')
           \<and> same_graph h h' \<and> marked h \<subseteq> marked h' \<and> marked h' \<subseteq> marked h \<union> S
           \<and> (\<forall>s \<in> set st. set (connections (h ! s)) \<subseteq> marked h')"
  using assms
proof (induction h st p rule: dfs_while.induct)
  case (1 h stack p)
  show ?case
  proof (cases "stack = []")
    case True
    then show ?thesis by simp
  next
    case False
    define s where "s = last stack"
    have sS: "s \<in> S" using False "1.prems"(2) by (auto simp: s_def)
    then have sl: "s < length h" and ns: "set (connections (h ! s)) \<subseteq> S"
      using "1.prems"(1) by (auto simp: closed_def)
    have d: "deref h s = Some (h ! s)" using sl by (simp add: deref_def)
    have nl: "\<forall>n \<in> set (connections (h ! s)). n < length h"
      using ns "1.prems"(1) by (auto simp: closed_def)
    from visit_neighbors_spec[OF nl, of "butlast stack" p] obtain h1 new where
      v: "visit_neighbors (connections (h ! s)) (h, butlast stack, p) =
            Some (h1, butlast stack @ new, p + (\<Sum>r\<leftarrow>new. population (h ! r)))"
      and sg1: "same_graph h h1" and m1: "marked h1 = marked h \<union> set (connections (h ! s))"
      and new: "set new = set (connections (h ! s)) - marked h" and dn: "distinct new"
      by blast
    have c1: "closed h1 S" using sg1 "1.prems"(1) by (rule same_graph_closed)
    have st1: "set (butlast stack @ new) \<subseteq> S"
      using "1.prems"(2) new ns by (auto dest: in_set_butlastD)
    from "1.IH"[OF False d[unfolded s_def] v[unfolded s_def] refl refl c1 st1] obtain h' where
      r: "dfs_while h1 (butlast stack @ new) (p + (\<Sum>r\<leftarrow>new. population (h ! r))) =
            Some (p + (\<Sum>r\<leftarrow>new. population (h ! r)) + (\<Sum>r \<in> marked h' - marked h1. population (h1 ! r)), h')"
      and sg2: "same_graph h1 h'" and m2: "marked h1 \<subseteq> marked h'" and m3: "marked h' \<subseteq> marked h1 \<union> S"
      and nb: "\<forall>x \<in> set (butlast stack @ new). set (connections (h1 ! x)) \<subseteq> marked h'"
      by blast
    have unf: "dfs_while h stack p =
        dfs_while h1 (butlast stack @ new) (p + (\<Sum>r\<leftarrow>new. population (h ! r)))"
      using False d v by (subst dfs_while.simps) (simp add: s_def)
    have len1: "length h1 = length h" using sg1 by (simp add: same_graph_def)
    have pop1: "\<And>r. r \<in> marked h' \<Longrightarrow> population (h1 ! r) = population (h ! r)"
      using sg1 sg2 by (simp add: same_graph_def marked_def)
    have s1: "(\<Sum>r\<leftarrow>new. population (h ! r)) = (\<Sum>r \<in> marked h1 - marked h. population (h ! r))"
    proof -
      have "marked h1 - marked h = set new" using m1 new by auto
      then show ?thesis using dn by (simp add: sum_list_distinct_conv_sum_set)
    qed
    have s2: "(\<Sum>r \<in> marked h' - marked h1. population (h1 ! r)) =
              (\<Sum>r \<in> marked h' - marked h1. population (h ! r))"
      by (rule sum.cong) (auto simp: pop1)
    have "marked h' - marked h = (marked h1 - marked h) \<union> (marked h' - marked h1)"
      using m1 m2 by auto
    moreover have "(marked h1 - marked h) \<inter> (marked h' - marked h1) = {}" by auto
    ultimately have s3: "(\<Sum>r \<in> marked h' - marked h. population (h ! r)) =
        (\<Sum>r \<in> marked h1 - marked h. population (h ! r)) +
        (\<Sum>r \<in> marked h' - marked h1. population (h ! r))"
      by (simp add: sum.union_disjoint)
    have res: "dfs_while h stack p =
        Some (p + (\<Sum>r \<in> marked h' - marked h. population (h ! r)), h')"
      using unf r s1 s2 s3 by simp
    have sg: "same_graph h h'" using sg1 sg2 by (rule same_graph_trans)
    have mA: "marked h \<subseteq> marked h'" using m1 m2 by auto
    have mB: "marked h' \<subseteq> marked h \<union> S" using m1 m3 ns by auto
    have nbs: "set (connections (h ! x)) \<subseteq> marked h'" if "x \<in> set stack" for x
    proof (cases "x = s")
      case True
      then show ?thesis using m1 m2 by auto
    next
      case nx: False
      have "stack = butlast stack @ [s]" using False by (simp add: s_def)
      then have "set stack = set (butlast stack) \<union> {s}"
        by (metis Un_insert_right list.simps(15) set_append sup_bot.right_neutral list.set(1))
      then have xb: "x \<in> set (butlast stack)" using that nx by auto
      then have "x \<in> S" using "1.prems"(2) by (auto dest: in_set_butlastD)
      then have "x < length h" using "1.prems"(1) by (simp add: closed_def)
      then have "connections (h ! x) = connections (h1 ! x)" using sg1 by (simp add: same_graph_def)
      moreover have "set (connections (h1 ! x)) \<subseteq> marked h'" using nb xb by simp
      ultimately show ?thesis by simp
    qed
    show ?thesis using res sg mA mB nbs by blast
  qed
qed

lemma depth_first_search_spec:
  assumes "closed h S" and "a \<in> S" and "a \<notin> marked h"
  shows "\<exists>h'. depth_first_search a h = Some (\<Sum>r \<in> marked h' - marked h. population (h ! r), h')
           \<and> same_graph h h' \<and> marked h \<subseteq> marked h' \<and> marked h' \<subseteq> marked h \<union> S
           \<and> a \<in> marked h' \<and> set (connections (h ! a)) \<subseteq> marked h'"
proof -
  have al: "a < length h" using assms(1,2) by (simp add: closed_def)
  then have nv: "\<not> visited (h ! a)" using assms(3) by (simp add: marked_def)
  define h1 where "h1 = h[a := (h ! a)\<lparr>visited := True\<rparr>]"
  have sg1: "same_graph h h1" unfolding h1_def using al by (rule same_graph_set_flag)
  have m1: "marked h1 = insert a (marked h)" unfolding h1_def using al by (rule marked_set_True)
  have c1: "closed h1 S" using sg1 assms(1) by (rule same_graph_closed)
  from dfs_while_spec[OF c1, of "[a]" "population (h ! a)"] assms(2) obtain h' where
    r: "dfs_while h1 [a] (population (h ! a)) =
          Some (population (h ! a) + (\<Sum>r \<in> marked h' - marked h1. population (h1 ! r)), h')"
    and sg2: "same_graph h1 h'" and m2: "marked h1 \<subseteq> marked h'" and m3: "marked h' \<subseteq> marked h1 \<union> S"
    and nb: "set (connections (h1 ! a)) \<subseteq> marked h'"
    by auto
  have unf: "depth_first_search a h = dfs_while h1 [a] (population (h ! a))"
    using al nv by (simp add: depth_first_search_def deref_def h1_def)
  have pop1: "\<And>r. r \<in> marked h' \<Longrightarrow> population (h1 ! r) = population (h ! r)"
    using sg1 sg2 by (simp add: same_graph_def marked_def)
  have s2: "(\<Sum>r \<in> marked h' - marked h1. population (h1 ! r)) =
            (\<Sum>r \<in> marked h' - marked h1. population (h ! r))"
    by (rule sum.cong) (auto simp: pop1)
  have "marked h' - marked h = insert a (marked h' - marked h1)"
    using m1 m2 assms(3) by auto
  moreover have "a \<notin> marked h' - marked h1" using m1 by simp
  ultimately have s3: "(\<Sum>r \<in> marked h' - marked h. population (h ! r)) =
      population (h ! a) + (\<Sum>r \<in> marked h' - marked h1. population (h ! r))"
    by simp
  have res: "depth_first_search a h = Some (\<Sum>r \<in> marked h' - marked h. population (h ! r), h')"
    using unf r s2 s3 by simp
  have "connections (h1 ! a) = connections (h ! a)" using sg1 al by (simp add: same_graph_def)
  then have nb': "set (connections (h ! a)) \<subseteq> marked h'" using nb by simp
  have sg: "same_graph h h'" using sg1 sg2 by (rule same_graph_trans)
  show ?thesis using res sg m1 m2 m3 nb' assms(2) by auto
qed


section \<open>The loops over the list of cities\<close>

lemma reset_all_spec:
  assumes "\<forall>c \<in> set cs. c < length h"
  shows "\<exists>h0. reset_all cs h = Some h0 \<and> same_graph h h0 \<and> marked h0 = marked h - set cs"
  using assms
proof (induction cs arbitrary: h)
  case Nil
  then show ?case by simp
next
  case (Cons c cs)
  then have cl: "c < length h" by simp
  define h1 where "h1 = h[c := (h ! c)\<lparr>visited := False\<rparr>]"
  have sg1: "same_graph h h1" unfolding h1_def using cl by (rule same_graph_set_flag)
  have m1: "marked h1 = marked h - {c}" unfolding h1_def using cl by (rule marked_set_False)
  have len: "length h1 = length h" by (simp add: h1_def)
  from Cons.IH[of h1] Cons.prems len obtain h0 where
    r: "reset_all cs h1 = Some h0" "same_graph h1 h0" "marked h0 = marked h1 - set cs"
    by auto
  have "reset_all (c # cs) h = reset_all cs h1"
    using cl by (simp add: reset_visited_def deref_def h1_def)
  moreover have "same_graph h h0" using sg1 r(2) by (rule same_graph_trans)
  moreover have "marked h0 = marked h - set (c # cs)" using r(3) m1 by auto
  ultimately show ?case using r(1) by simp
qed

lemma count_islands_spec:
  assumes "closed h S" and "set xs \<subseteq> S"
  shows "\<exists>n' h'. count_islands xs h n = Some (n', h') \<and> same_graph h h' \<and>
           marked h \<subseteq> marked h' \<and> marked h' \<subseteq> marked h \<union> S \<and> set xs \<subseteq> marked h' \<and>
           n' \<le> n + int (length xs)"
  using assms
proof (induction xs arbitrary: h n)
  case Nil
  then show ?case by simp
next
  case (Cons x xs)
  then have xS: "x \<in> S" and xsS: "set xs \<subseteq> S" by auto
  have xl: "x < length h" using xS Cons.prems(1) by (simp add: closed_def)
  show ?case
  proof (cases "visited (h ! x)")
    case True
    then have xm: "x \<in> marked h" using xl by (simp add: marked_def)
    from Cons.IH[OF Cons.prems(1) xsS, of n] obtain n' h' where
      r: "count_islands xs h n = Some (n', h')" "same_graph h h'" "marked h \<subseteq> marked h'"
         "marked h' \<subseteq> marked h \<union> S" "set xs \<subseteq> marked h'" "n' \<le> n + int (length xs)"
      by blast
    have "count_islands (x # xs) h n = count_islands xs h n"
      using True xl by (simp add: deref_def)
    then show ?thesis using r xm by auto
  next
    case False
    then have xm: "x \<notin> marked h" by (simp add: marked_def)
    from depth_first_search_spec[OF Cons.prems(1) xS xm] obtain t h1 where
      d: "depth_first_search x h = Some (t, h1)" "same_graph h h1" "marked h \<subseteq> marked h1"
         "marked h1 \<subseteq> marked h \<union> S" "x \<in> marked h1"
      by blast
    have c1: "closed h1 S" using d(2) Cons.prems(1) by (rule same_graph_closed)
    from Cons.IH[OF c1 xsS, of "n + 1"] obtain n' h' where
      r: "count_islands xs h1 (n + 1) = Some (n', h')" "same_graph h1 h'" "marked h1 \<subseteq> marked h'"
         "marked h' \<subseteq> marked h1 \<union> S" "set xs \<subseteq> marked h'" "n' \<le> n + 1 + int (length xs)"
      by blast
    have "count_islands (x # xs) h n = count_islands xs h1 (n + 1)"
      using False xl d(1) by (simp add: deref_def)
    moreover have "same_graph h h'" using d(2) r(2) by (rule same_graph_trans)
    ultimately show ?thesis using r d by auto
  qed
qed

lemma collect_populations_spec:
  assumes "closed h S" and "set xs \<subseteq> S"
  shows "\<exists>ps h'. collect_populations xs h acc = Some (acc @ ps, h') \<and> same_graph h h' \<and>
           marked h \<subseteq> marked h' \<and> marked h' \<subseteq> marked h \<union> S \<and> set xs \<subseteq> marked h' \<and>
           sum_list ps = (\<Sum>r \<in> marked h' - marked h. population (h ! r))"
  using assms
proof (induction xs arbitrary: h acc)
  case Nil
  then show ?case by simp
next
  case (Cons x xs)
  then have xS: "x \<in> S" and xsS: "set xs \<subseteq> S" by auto
  have xl: "x < length h" using xS Cons.prems(1) by (simp add: closed_def)
  show ?case
  proof (cases "visited (h ! x)")
    case True
    then have xm: "x \<in> marked h" using xl by (simp add: marked_def)
    from Cons.IH[OF Cons.prems(1) xsS, of acc] obtain ps h' where
      r: "collect_populations xs h acc = Some (acc @ ps, h')" "same_graph h h'"
         "marked h \<subseteq> marked h'" "marked h' \<subseteq> marked h \<union> S" "set xs \<subseteq> marked h'"
         "sum_list ps = (\<Sum>r \<in> marked h' - marked h. population (h ! r))"
      by blast
    have "collect_populations (x # xs) h acc = collect_populations xs h acc"
      using True xl by (simp add: deref_def)
    then show ?thesis using r xm by auto
  next
    case False
    then have xm: "x \<notin> marked h" by (simp add: marked_def)
    from depth_first_search_spec[OF Cons.prems(1) xS xm] obtain h1 where
      d: "depth_first_search x h = Some (\<Sum>r \<in> marked h1 - marked h. population (h ! r), h1)"
         "same_graph h h1" "marked h \<subseteq> marked h1"
         "marked h1 \<subseteq> marked h \<union> S" "x \<in> marked h1"
      by blast
    define t where "t = (\<Sum>r \<in> marked h1 - marked h. population (h ! r))"
    have c1: "closed h1 S" using d(2) Cons.prems(1) by (rule same_graph_closed)
    from Cons.IH[OF c1 xsS, of "acc @ [t]"] obtain ps h' where
      r: "collect_populations xs h1 (acc @ [t]) = Some ((acc @ [t]) @ ps, h')" "same_graph h1 h'"
         "marked h1 \<subseteq> marked h'" "marked h' \<subseteq> marked h1 \<union> S" "set xs \<subseteq> marked h'"
         "sum_list ps = (\<Sum>r \<in> marked h' - marked h1. population (h1 ! r))"
      by blast
    have unf: "collect_populations (x # xs) h acc = collect_populations xs h1 (acc @ [t])"
      using False xl d(1) by (simp add: deref_def t_def)
    have pop1: "\<And>r. r \<in> marked h' \<Longrightarrow> population (h1 ! r) = population (h ! r)"
      using d(2) r(2) by (simp add: same_graph_def marked_def)
    have s2: "(\<Sum>r \<in> marked h' - marked h1. population (h1 ! r)) =
              (\<Sum>r \<in> marked h' - marked h1. population (h ! r))"
      by (rule sum.cong) (auto simp: pop1)
    have "marked h' - marked h = (marked h1 - marked h) \<union> (marked h' - marked h1)"
      using d(3) r(3) by auto
    moreover have "(marked h1 - marked h) \<inter> (marked h' - marked h1) = {}" by auto
    ultimately have s3: "(\<Sum>r \<in> marked h' - marked h. population (h ! r)) =
        t + (\<Sum>r \<in> marked h' - marked h1. population (h ! r))"
      by (simp add: sum.union_disjoint t_def)
    have "collect_populations (x # xs) h acc = Some (acc @ (t # ps), h')"
      using unf r(1) by simp
    moreover have "sum_list (t # ps) = (\<Sum>r \<in> marked h' - marked h. population (h ! r))"
      using r(6) s2 s3 by simp
    moreover have "same_graph h h'" using d(2) r(2) by (rule same_graph_trans)
    moreover have "marked h \<subseteq> marked h'" using d(3) r(3) by auto
    moreover have "marked h' \<subseteq> marked h \<union> S" using d(4) r(4) by auto
    moreover have "set (x # xs) \<subseteq> marked h'" using d(5) r(3,5) by auto
    ultimately show ?thesis by blast
  qed
qed

lemma count_islands_seen:
  assumes "closed h S" and "set xs \<subseteq> S" and "x \<in> set xs" and "x \<in> marked h"
    and "count_islands xs h n = Some (n', h')"
  shows "n' < n + int (length xs)"
  using assms
proof (induction xs arbitrary: h n)
  case Nil
  then show ?case by simp
next
  case (Cons y ys)
  then have yS: "y \<in> S" and ysS: "set ys \<subseteq> S" by auto
  have yl: "y < length h" using yS Cons.prems(1) by (simp add: closed_def)
  show ?case
  proof (cases "visited (h ! y)")
    case True
    have "count_islands (y # ys) h n = count_islands ys h n"
      using True yl by (simp add: deref_def)
    then have "count_islands ys h n = Some (n', h')" using Cons.prems(5) by simp
    moreover from count_islands_spec[OF Cons.prems(1) ysS, of n] obtain m k where
      "count_islands ys h n = Some (m, k)" "m \<le> n + int (length ys)" by blast
    ultimately show ?thesis by simp
  next
    case False
    then have ym: "y \<notin> marked h" by (simp add: marked_def)
    then have xy: "x \<in> set ys" using Cons.prems(3,4) by auto
    from depth_first_search_spec[OF Cons.prems(1) yS ym] obtain t h1 where
      d: "depth_first_search y h = Some (t, h1)" "same_graph h h1" "marked h \<subseteq> marked h1"
      by blast
    have c1: "closed h1 S" using d(2) Cons.prems(1) by (rule same_graph_closed)
    have "count_islands (y # ys) h n = count_islands ys h1 (n + 1)"
      using False yl d(1) by (simp add: deref_def)
    then have "count_islands ys h1 (n + 1) = Some (n', h')" using Cons.prems(5) by simp
    from Cons.IH[OF c1 ysS xy _ this] d(3) Cons.prems(4) show ?thesis by auto
  qed
qed

lemma count_islands_edge:
  assumes "closed h S" and "set xs \<subseteq> S" and "a \<in> set xs" and "b \<in> set xs" and "a \<noteq> b"
    and "b \<in> set (connections (h ! a))" and "a \<in> set (connections (h ! b))"
    and "count_islands xs h n = Some (n', h')"
  shows "n' < n + int (length xs)"
  using assms
proof (induction xs arbitrary: h n)
  case Nil
  then show ?case by simp
next
  case (Cons y ys)
  then have yS: "y \<in> S" and ysS: "set ys \<subseteq> S" by auto
  have yl: "y < length h" using yS Cons.prems(1) by (simp add: closed_def)
  show ?case
  proof (cases "visited (h ! y)")
    case True
    then have "y \<in> marked h" using yl by (simp add: marked_def)
    from count_islands_seen[OF Cons.prems(1,2) _ this Cons.prems(8)] show ?thesis by simp
  next
    case False
    then have ym: "y \<notin> marked h" by (simp add: marked_def)
    from depth_first_search_spec[OF Cons.prems(1) yS ym] obtain t h1 where
      d: "depth_first_search y h = Some (t, h1)" "same_graph h h1" "marked h \<subseteq> marked h1"
        "set (connections (h ! y)) \<subseteq> marked h1"
      by blast
    have c1: "closed h1 S" using d(2) Cons.prems(1) by (rule same_graph_closed)
    have "count_islands (y # ys) h n = count_islands ys h1 (n + 1)"
      using False yl d(1) by (simp add: deref_def)
    then have run: "count_islands ys h1 (n + 1) = Some (n', h')" using Cons.prems(8) by simp
    have al: "a < length h" and bl: "b < length h"
      using Cons.prems(1,2,3,4) by (auto simp: closed_def)
    consider "y = a" | "y = b" | "y \<noteq> a" "y \<noteq> b" by blast
    then show ?thesis
    proof cases
      case 1
      then have "b \<in> marked h1" "b \<in> set ys" using d(4) Cons.prems(4,5,6) by auto
      from count_islands_seen[OF c1 ysS this(2,1) run] show ?thesis by simp
    next
      case 2
      then have "a \<in> marked h1" "a \<in> set ys" using d(4) Cons.prems(3,5,7) by auto
      from count_islands_seen[OF c1 ysS this(2,1) run] show ?thesis by simp
    next
      case 3
      then have "a \<in> set ys" "b \<in> set ys" using Cons.prems(3,4) by auto
      moreover have "connections (h1 ! a) = connections (h ! a)"
        "connections (h1 ! b) = connections (h ! b)"
        using d(2) al bl by (simp_all add: same_graph_def)
      ultimately have "n' < n + 1 + int (length ys)"
        using Cons.IH[OF c1 ysS _ _ Cons.prems(5) _ _ run] Cons.prems(6,7) by simp
      then show ?thesis by simp
    qed
  qed
qed

lemma count_islands_isolated:
  assumes "\<forall>c \<in> S. c < length h \<and> set (connections (h ! c)) \<subseteq> {c}"
    and "distinct xs" and "set xs \<subseteq> S" and "set xs \<inter> marked h = {}"
  shows "\<exists>h'. count_islands xs h n = Some (n + int (length xs), h')"
  using assms
proof (induction xs arbitrary: h n)
  case Nil
  then show ?case by simp
next
  case (Cons y ys)
  then have yS: "y \<in> S" and ysS: "set ys \<subseteq> S" and ym: "y \<notin> marked h" by auto
  have yl: "y < length h" using yS Cons.prems(1) by simp
  have nv: "\<not> visited (h ! y)" using ym yl by (simp add: marked_def)
  have cy: "closed h {y}" using Cons.prems(1) yS by (simp add: closed_def)
  have "y \<in> {y}" by simp
  from depth_first_search_spec[OF cy this ym] obtain t h1 where
    d: "depth_first_search y h = Some (t, h1)" "same_graph h h1" "marked h1 \<subseteq> marked h \<union> {y}"
    by blast
  have a1: "\<forall>c \<in> S. c < length h1 \<and> set (connections (h1 ! c)) \<subseteq> {c}"
    using Cons.prems(1) d(2) by (simp add: same_graph_def)
  have a2: "set ys \<inter> marked h1 = {}" using d(3) Cons.prems(2,4) by auto
  have "distinct ys" using Cons.prems(2) by simp
  from Cons.IH[OF a1 this ysS a2, of "n + 1"] obtain h' where
    "count_islands ys h1 (n + 1) = Some (n + 1 + int (length ys), h')" by blast
  moreover have "count_islands (y # ys) h n = count_islands ys h1 (n + 1)"
    using nv yl d(1) by (simp add: deref_def)
  ultimately show ?case by simp
qed


lemma well_formed_closed: "well_formed h cs \<Longrightarrow> closed h (set cs)"
  by (simp add: well_formed_def closed_def)

lemma same_graph_well_formed:
  assumes "same_graph h g" and "well_formed h cs"
  shows "well_formed g cs"
proof -
  have "\<And>c. c \<in> set cs \<Longrightarrow> c < length h" using assms(2) by (simp add: well_formed_def)
  then have eq: "\<And>c. c \<in> set cs \<Longrightarrow> connections (g ! c) = connections (h ! c)"
    using assms(1) by (simp add: same_graph_def)
  have len: "length g = length h" using assms(1) by (simp add: same_graph_def)
  have sub: "\<And>a b. a \<in> set cs \<Longrightarrow> b \<in> set (connections (h ! a)) \<Longrightarrow> b \<in> set cs"
    using assms(2) unfolding well_formed_def by blast
  show ?thesis
    unfolding well_formed_def
  proof (intro conjI ballI)
    show "distinct cs" using assms(2) by (simp add: well_formed_def)
  next
    fix c assume "c \<in> set cs"
    then show "c < length g" using assms(2) len by (simp add: well_formed_def)
  next
    fix c assume "c \<in> set cs"
    then show "set (connections (g ! c)) \<subseteq> set cs" using eq sub by auto
  next
    fix a b assume a: "a \<in> set cs" and b: "b \<in> set (connections (g ! a))"
    then have b': "b \<in> set (connections (h ! a))" using eq by simp
    then have "b \<in> set cs" using a sub by blast
    moreover have "a \<in> set (connections (h ! b))"
      using assms(2) a b' unfolding well_formed_def by blast
    ultimately show "a \<in> set (connections (g ! b))" using eq by simp
  qed
qed

lemma island_populations_spec:
  assumes "well_formed g cs"
  shows "\<exists>ps g'. island_populations g cs = Some (ps, g') \<and> same_graph g g' \<and>
           set cs \<subseteq> marked g' \<and> sum_list ps = (\<Sum>c\<leftarrow>cs. population (g ! c))"
proof -
  have lt: "\<forall>c \<in> set cs. c < length g" using assms by (simp add: well_formed_def)
  from reset_all_spec[OF lt] obtain g0 where
    r: "reset_all cs g = Some g0" "same_graph g g0" "marked g0 = marked g - set cs" by blast
  have c0: "closed g0 (set cs)"
    using r(2) well_formed_closed[OF assms] by (rule same_graph_closed)
  from collect_populations_spec[OF c0 subset_refl, of "[]"] obtain ps g' where
    c: "collect_populations cs g0 [] = Some (ps, g')" "same_graph g0 g'"
       "marked g0 \<subseteq> marked g'" "marked g' \<subseteq> marked g0 \<union> set cs" "set cs \<subseteq> marked g'"
       "sum_list ps = (\<Sum>r \<in> marked g' - marked g0. population (g0 ! r))"
    by auto
  have "marked g' - marked g0 = set cs" using r(3) c(3,4,5) by auto
  then have "sum_list ps = (\<Sum>r \<in> set cs. population (g0 ! r))" using c(6) by simp
  also have "\<dots> = (\<Sum>r \<in> set cs. population (g ! r))"
    by (rule sum.cong) (use r(2) lt in \<open>auto simp: same_graph_def\<close>)
  also have "\<dots> = (\<Sum>c\<leftarrow>cs. population (g ! c))"
    using assms by (simp add: well_formed_def sum_list_distinct_conv_sum_set)
  finally have s: "sum_list ps = (\<Sum>c\<leftarrow>cs. population (g ! c))" .
  have "island_populations g cs = Some (ps, g')"
    using r(1) c(1) by (simp add: island_populations_def)
  moreover have "same_graph g g'" using r(2) c(2) by (rule same_graph_trans)
  ultimately show ?thesis using s c(5) by blast
qed

lemma number_of_islands_spec:
  assumes "well_formed g cs"
  shows "\<exists>n g'. number_of_islands g cs = Some (n, g') \<and> same_graph g g' \<and>
           set cs \<subseteq> marked g' \<and> n \<le> int (length cs) \<and>
           (n = int (length cs) \<longleftrightarrow> (\<forall>c \<in> set cs. set (connections (g ! c)) \<subseteq> {c}))"
proof -
  have lt: "\<forall>c \<in> set cs. c < length g" using assms by (simp add: well_formed_def)
  from reset_all_spec[OF lt] obtain g0 where
    r: "reset_all cs g = Some g0" "same_graph g g0" "marked g0 = marked g - set cs" by blast
  have w0: "well_formed g0 cs" using r(2) assms by (rule same_graph_well_formed)
  have c0: "closed g0 (set cs)" using w0 by (rule well_formed_closed)
  have eq: "\<And>c. c \<in> set cs \<Longrightarrow> connections (g0 ! c) = connections (g ! c)"
    using r(2) lt by (simp add: same_graph_def)
  from count_islands_spec[OF c0 subset_refl, of 0] obtain n g' where
    c: "count_islands cs g0 0 = Some (n, g')" "same_graph g0 g'" "set cs \<subseteq> marked g'"
       "n \<le> int (length cs)"
    by auto
  have run: "number_of_islands g cs = Some (n, g')"
    using r(1) c(1) by (simp add: number_of_islands_def)
  have "n = int (length cs) \<longleftrightarrow> (\<forall>c \<in> set cs. set (connections (g ! c)) \<subseteq> {c})"
  proof
    assume full: "n = int (length cs)"
    show "\<forall>c \<in> set cs. set (connections (g ! c)) \<subseteq> {c}"
    proof (rule ccontr)
      assume "\<not> (\<forall>c \<in> set cs. set (connections (g ! c)) \<subseteq> {c})"
      then obtain a b where ab: "a \<in> set cs" "b \<in> set (connections (g ! a))" "b \<noteq> a" by auto
      then have b0: "b \<in> set (connections (g0 ! a))" using eq by simp
      then have bs: "b \<in> set cs" using w0 ab(1) unfolding well_formed_def by blast
      have a0: "a \<in> set (connections (g0 ! b))"
        using w0 ab(1) b0 unfolding well_formed_def by blast
      from count_islands_edge[OF c0 subset_refl ab(1) bs _ b0 a0 c(1)] ab(3)
      have "n < int (length cs)" by auto
      then show False using full by simp
    qed
  next
    assume iso: "\<forall>c \<in> set cs. set (connections (g ! c)) \<subseteq> {c}"
    have a1: "\<forall>c \<in> set cs. c < length g0 \<and> set (connections (g0 ! c)) \<subseteq> {c}"
      using iso eq lt r(2) by (simp add: same_graph_def)
    have a2: "set cs \<inter> marked g0 = {}" using r(3) by auto
    have "distinct cs" using assms by (simp add: well_formed_def)
    from count_islands_isolated[OF a1 this subset_refl a2, of 0] c(1)
    show "n = int (length cs)" by auto
  qed
  moreover have "same_graph g g'" using r(2) c(2) by (rule same_graph_trans)
  ultimately show ?thesis using run c(3,4) by blast
qed


section \<open>Walks and the breadth-first search\<close>

text \<open>
  \<open>walk h k a b\<close>: some path of \<open>k\<close> edges leads from \<open>a\<close> to \<open>b\<close> along the
  connections of the store. \<open>shortest h a b k\<close>: \<open>k\<close> is the least such number, that
  is, no path has fewer edges.
\<close>

fun walk :: "heap \<Rightarrow> nat \<Rightarrow> ref \<Rightarrow> ref \<Rightarrow> bool" where
  "walk h 0 a b = (a = b)"
| "walk h (Suc k) a b = (a < length h \<and> (\<exists>c \<in> set (connections (h ! a)). walk h k c b))"

definition shortest :: "heap \<Rightarrow> ref \<Rightarrow> ref \<Rightarrow> nat \<Rightarrow> bool" where
  "shortest h a b k \<longleftrightarrow> walk h k a b \<and> (\<forall>j < k. \<not> walk h j a b)"

lemma shortest_iff:
  "shortest h a b k \<longleftrightarrow> walk h k a b \<and> (\<forall>j. walk h j a b \<longrightarrow> k \<le> j)"
  unfolding shortest_def by (meson not_less)

lemma walk_snoc:
  "walk h (Suc k) a b \<longleftrightarrow> (\<exists>c. walk h k a c \<and> c < length h \<and> b \<in> set (connections (h ! c)))"
proof (induction k arbitrary: a)
  case 0
  then show ?case by auto
next
  case (Suc k)
  have "walk h (Suc (Suc k)) a b \<longleftrightarrow>
        a < length h \<and> (\<exists>c \<in> set (connections (h ! a)). walk h (Suc k) c b)"
    by simp
  also have "\<dots> \<longleftrightarrow> a < length h \<and> (\<exists>c \<in> set (connections (h ! a)).
        \<exists>m. walk h k c m \<and> m < length h \<and> b \<in> set (connections (h ! m)))"
    using Suc.IH by simp
  also have "\<dots> \<longleftrightarrow> (\<exists>m. (a < length h \<and> (\<exists>c \<in> set (connections (h ! a)). walk h k c m)) \<and>
        m < length h \<and> b \<in> set (connections (h ! m)))"
    by blast
  also have "\<dots> \<longleftrightarrow> (\<exists>m. walk h (Suc k) a m \<and> m < length h \<and> b \<in> set (connections (h ! m)))"
    by simp
  finally show ?case .
qed

lemma shortest_unique: "shortest h a b k \<Longrightarrow> shortest h a b j \<Longrightarrow> k = j"
  by (simp add: shortest_iff le_antisym)

lemma scan_neighbors_found:
  "e \<in> set ns \<Longrightarrow> scan_neighbors e d ns (seen, q) = Return (d + 1)"
  by (induction ns arbitrary: seen q) auto

lemma scan_neighbors_falls_through:
  "e \<notin> set ns \<Longrightarrow>
     \<exists>new. scan_neighbors e d ns (seen, q) =
              Continue (seen \<union> set ns, q @ map (\<lambda>w. (w, d + 1)) new) \<and>
            set new = set ns - seen"
proof (induction ns arbitrary: seen q)
  case Nil
  then show ?case by simp
next
  case (Cons n ns)
  then have ne: "n \<noteq> e" and e: "e \<notin> set ns" by auto
  show ?case
  proof (cases "n \<in> seen")
    case True
    from Cons.IH[OF e, of seen q] obtain new where
      "scan_neighbors e d ns (seen, q) = Continue (seen \<union> set ns, q @ map (\<lambda>w. (w, d + 1)) new)"
      "set new = set ns - seen" by blast
    then show ?thesis using True ne by (auto simp: insert_absorb)
  next
    case False
    from Cons.IH[OF e, of "insert n seen" "q @ [(n, d + 1)]"] obtain new where
      r: "scan_neighbors e d ns (insert n seen, q @ [(n, d + 1)]) =
         Continue (insert n seen \<union> set ns, (q @ [(n, d + 1)]) @ map (\<lambda>w. (w, d + 1)) new)"
      "set new = set ns - insert n seen" by blast
    have "scan_neighbors e d (n # ns) (seen, q) =
        Continue (seen \<union> set (n # ns), q @ map (\<lambda>w. (w, d + 1)) (n # new))"
      using False ne r(1) by simp
    moreover have "set (n # new) = set (n # ns) - seen" using False r(2) by auto
    ultimately show ?thesis by blast
  qed
qed

definition bfs_inv ::
  "heap \<Rightarrow> ref set \<Rightarrow> ref \<Rightarrow> ref \<Rightarrow> (ref \<times> int) list \<Rightarrow> ref set \<Rightarrow> bool" where
  "bfs_inv h S s e q seen \<longleftrightarrow>
     s \<in> seen \<and> e \<notin> seen \<and> seen \<subseteq> S \<and>
     (\<forall>x \<in> set q. fst x \<in> seen \<and> (\<exists>k. snd x = int k \<and> shortest h s (fst x) k)) \<and>
     (\<forall>v \<in> seen. v \<in> fst ` set q \<or> set (connections (h ! v)) \<subseteq> seen) \<and>
     sorted (map snd q) \<and>
     (\<forall>x \<in> set q. snd x \<le> snd (hd q) + 1) \<and>
     (q \<noteq> [] \<longrightarrow> (\<forall>w k. walk h k s w \<and> int k \<le> snd (hd q) \<longrightarrow> w \<in> seen))"

lemma bfs_inv_init:
  assumes "s \<in> S" and "s \<noteq> e"
  shows "bfs_inv h S s e [(s, 0)] {s}"
  using assms by (auto simp: bfs_inv_def shortest_def)

lemma bfs_inv_empty:
  assumes "bfs_inv h S s e [] seen"
  shows "\<not> walk h k s e"
proof -
  have cl: "\<And>v. v \<in> seen \<Longrightarrow> set (connections (h ! v)) \<subseteq> seen"
    using assms by (auto simp: bfs_inv_def)
  have "walk h k a b \<Longrightarrow> a \<in> seen \<Longrightarrow> b \<in> seen" for a b
  proof (induction k arbitrary: a)
    case 0
    then show ?case by simp
  next
    case (Suc k)
    then show ?case using cl by auto
  qed
  moreover have "s \<in> seen" "e \<notin> seen" using assms by (auto simp: bfs_inv_def)
  ultimately show ?thesis by blast
qed

lemma bfs_inv_found:
  assumes cl: "closed h S" and inv: "bfs_inv h S s e ((u, d) # q') seen"
    and e: "e \<in> set (connections (h ! u))"
  shows "\<exists>k. d + 1 = int k \<and> shortest h s e k"
proof -
  from inv obtain ku where d: "d = int ku" and su: "shortest h s u ku" and us: "u \<in> seen"
    by (auto simp: bfs_inv_def)
  have ul: "u < length h" using inv us cl by (auto simp: bfs_inv_def closed_def)
  have w: "walk h (Suc ku) s e"
    using su e ul unfolding walk_snoc shortest_iff by blast
  have comp: "\<And>w k. walk h k s w \<Longrightarrow> int k \<le> d \<Longrightarrow> w \<in> seen"
    using inv by (auto simp: bfs_inv_def)
  have es: "e \<notin> seen" using inv by (simp add: bfs_inv_def)
  have "Suc ku \<le> j" if "walk h j s e" for j
  proof (rule ccontr)
    assume "\<not> Suc ku \<le> j"
    then have "int j \<le> d" using d by simp
    from comp[OF that this] es show False by simp
  qed
  then have "shortest h s e (Suc ku)" using w by (simp add: shortest_iff)
  moreover have "d + 1 = int (Suc ku)" using d by simp
  ultimately show ?thesis by blast
qed


lemma sorted_hd_least:
  "sorted (map f xs) \<Longrightarrow> x \<in> set xs \<Longrightarrow> f (hd xs) \<le> f x"
  by (cases xs) auto

lemma sorted_map_const: "sorted (map (\<lambda>w. c) xs)"
  by (induction xs) auto

lemma bfs_inv_step:
  assumes cl: "closed h S" and inv: "bfs_inv h S s e ((u, d) # q') seen"
    and ne: "e \<notin> set (connections (h ! u))"
    and new: "set new = set (connections (h ! u)) - seen"
  shows "bfs_inv h S s e (q' @ map (\<lambda>w. (w, d + 1)) new) (seen \<union> set (connections (h ! u)))"
proof -
  define ns where "ns = connections (h ! u)"
  define q'' where "q'' = q' @ map (\<lambda>w. (w, d + 1)) new"
  from inv have i1: "s \<in> seen" and i2: "e \<notin> seen" and i3: "seen \<subseteq> S"
    by (auto simp: bfs_inv_def)
  from inv have i4: "\<And>x. x \<in> set q' \<Longrightarrow> fst x \<in> seen \<and> (\<exists>k. snd x = int k \<and> shortest h s (fst x) k)"
    by (simp add: bfs_inv_def)
  from inv obtain ku where d: "d = int ku" and su: "shortest h s u ku" and us: "u \<in> seen"
    by (auto simp: bfs_inv_def)
  from inv have i5: "\<And>v. v \<in> seen \<Longrightarrow> v = u \<or> v \<in> fst ` set q' \<or> set (connections (h ! v)) \<subseteq> seen"
    by (auto simp: bfs_inv_def)
  from inv have i6: "sorted (map snd q')" and i6': "\<And>x. x \<in> set q' \<Longrightarrow> d \<le> snd x"
    by (auto simp: bfs_inv_def)
  from inv have i7: "\<And>x. x \<in> set q' \<Longrightarrow> snd x \<le> d + 1"
    by (auto simp: bfs_inv_def)
  from inv have i8: "\<And>w k. walk h k s w \<Longrightarrow> int k \<le> d \<Longrightarrow> w \<in> seen"
    by (auto simp: bfs_inv_def)
  have uS: "u \<in> S" using us i3 by auto
  then have ul: "u < length h" and nsS: "set ns \<subseteq> S"
    using cl by (auto simp: closed_def ns_def)
  have newns: "set new = set ns - seen" using new by (simp add: ns_def)
  have g1: "s \<in> seen \<union> set ns" using i1 by simp
  have g2: "e \<notin> seen \<union> set ns" using i2 ne by (simp add: ns_def)
  have g3: "seen \<union> set ns \<subseteq> S" using i3 nsS by simp
  have fresh: "shortest h s w (Suc ku)" if "w \<in> set new" for w
  proof -
    have wn: "w \<in> set ns" "w \<notin> seen" using that newns by auto
    have "walk h (Suc ku) s w"
      using su wn(1) ul unfolding walk_snoc shortest_iff ns_def by blast
    moreover have "Suc ku \<le> j" if "walk h j s w" for j
    proof (rule ccontr)
      assume "\<not> Suc ku \<le> j"
      then have "int j \<le> d" using d by simp
      from i8[OF that this] wn(2) show False by simp
    qed
    ultimately show ?thesis by (simp add: shortest_iff)
  qed
  have g4: "fst x \<in> seen \<union> set ns \<and> (\<exists>k. snd x = int k \<and> shortest h s (fst x) k)"
    if "x \<in> set q''" for x
  proof -
    from that consider "x \<in> set q'" | w where "w \<in> set new" "x = (w, d + 1)"
      by (auto simp: q''_def)
    then show ?thesis
    proof cases
      case 1
      then show ?thesis using i4 by auto
    next
      case 2
      have "snd x = int (Suc ku)" using d 2(2) by simp
      moreover have "shortest h s (fst x) (Suc ku)" using fresh[OF 2(1)] 2(2) by simp
      moreover have "fst x \<in> seen \<union> set ns" using 2 newns by auto
      ultimately show ?thesis by blast
    qed
  qed
  have g5: "v \<in> fst ` set q'' \<or> set (connections (h ! v)) \<subseteq> seen \<union> set ns"
    if "v \<in> seen \<union> set ns" for v
  proof (cases "v \<in> seen")
    case True
    from i5[OF True] show ?thesis
    proof (elim disjE)
      assume "v = u"
      then show ?thesis by (simp add: ns_def)
    next
      assume "v \<in> fst ` set q'"
      then show ?thesis by (auto simp: q''_def)
    next
      assume "set (connections (h ! v)) \<subseteq> seen"
      then show ?thesis by auto
    qed
  next
    case False
    then have "v \<in> set new" using that newns by auto
    then have "(v, d + 1) \<in> set q''" by (auto simp: q''_def)
    then show ?thesis by force
  qed
  have snd_new: "map snd (map (\<lambda>w. (w, d + 1)) new) = map (\<lambda>w. d + 1) new" by simp
  have g6: "sorted (map snd q'')"
    unfolding q''_def map_append snd_new sorted_append
    using i6 i7 by (simp add: sorted_map_const)
  have up: "snd x \<le> d + 1" if "x \<in> set q''" for x
  proof -
    from that consider "x \<in> set q'" | "snd x = d + 1" by (auto simp: q''_def)
    then show ?thesis by cases (simp_all add: i7)
  qed
  have low: "d \<le> snd x" if "x \<in> set q''" for x
  proof -
    from that consider "x \<in> set q'" | "snd x = d + 1" by (auto simp: q''_def)
    then show ?thesis by cases (simp_all add: i6')
  qed
  have g7: "snd x \<le> snd (hd q'') + 1" if "x \<in> set q''" for x
  proof -
    have "q'' \<noteq> []" using that by auto
    then have "hd q'' \<in> set q''" by simp
    then have "d \<le> snd (hd q'')" by (rule low)
    then show ?thesis using up[OF that] by simp
  qed
  have g8: "w \<in> seen \<union> set ns" if ne'': "q'' \<noteq> []" and wk: "walk h k s w"
    and le: "int k \<le> snd (hd q'')" for w k
  proof (cases "int k \<le> d")
    case True
    from i8[OF wk True] show ?thesis by simp
  next
    case False
    have "hd q'' \<in> set q''" using ne'' by simp
    then have "snd (hd q'') \<le> d + 1" by (rule up)
    then have kd: "k = Suc ku" and hd'': "snd (hd q'') = d + 1" using False le d by auto
    have allbig: "d + 1 \<le> snd x" if "x \<in> set q''" for x
      using sorted_hd_least[OF g6 that] hd'' by simp
    from wk kd have "walk h (Suc ku) s w" by simp
    then obtain c where c: "walk h ku s c" "c < length h" "w \<in> set (connections (h ! c))"
      unfolding walk_snoc by blast
    have cs: "c \<in> seen" using i8[OF c(1)] d by simp
    from i5[OF cs] show ?thesis
    proof (elim disjE)
      assume "c = u"
      then show ?thesis using c(3) by (simp add: ns_def)
    next
      assume "c \<in> fst ` set q'"
      then obtain x where x: "x \<in> set q'" "fst x = c" by auto
      from i4[OF x(1)] obtain kx where kx: "snd x = int kx" "shortest h s c kx"
        using x(2) by auto
      then have "kx \<le> ku" using c(1) by (simp add: shortest_iff)
      moreover have "d + 1 \<le> snd x" using allbig[of x] x(1) by (simp add: q''_def)
      ultimately show ?thesis using kx(1) d by simp
    next
      assume "set (connections (h ! c)) \<subseteq> seen"
      then show ?thesis using c(3) by auto
    qed
  qed
  show ?thesis
    unfolding bfs_inv_def q''_def[symmetric] ns_def[symmetric]
    using g1 g2 g3 g4 g5 g6 g7 g8 by blast
qed

lemma bfs_while_correct:
  assumes "closed h S" and "bfs_inv h S s e q seen"
  shows "(\<exists>k. bfs_while h e q seen = Some (int k) \<and> shortest h s e k) \<or>
         (bfs_while h e q seen = Some (- 1) \<and> (\<forall>k. \<not> walk h k s e))"
  using assms
proof (induction h e q seen rule: bfs_while.induct)
  case (1 h e q seen)
  show ?case
  proof (cases q)
    case Nil
    then have "bfs_while h e q seen = Some (- 1)" by (subst bfs_while.simps) simp
    moreover have "\<forall>k. \<not> walk h k s e"
      using bfs_inv_empty[of h S s e seen] "1.prems"(2) Nil by blast
    ultimately show ?thesis by blast
  next
    case (Cons x q')
    obtain u d where x: "x = (u, d)" by (cases x)
    have inv: "bfs_inv h S s e ((u, d) # q') seen" using "1.prems"(2) Cons x by simp
    then have "u \<in> S" by (auto simp: bfs_inv_def)
    then have ul: "u < length h" using "1.prems"(1) by (simp add: closed_def)
    then have dr: "deref h u = Some (h ! u)" by (simp add: deref_def)
    show ?thesis
    proof (cases "e \<in> set (connections (h ! u))")
      case True
      have "bfs_while h e q seen = Some (d + 1)"
        using Cons x dr scan_neighbors_found[OF True, of d seen q']
        by (subst bfs_while.simps) simp
      then show ?thesis using bfs_inv_found[OF "1.prems"(1) inv True] by auto
    next
      case False
      from scan_neighbors_falls_through[OF False, of d seen q'] obtain new where
        sc: "scan_neighbors e d (connections (h ! u)) (seen, q') =
              Continue (seen \<union> set (connections (h ! u)), q' @ map (\<lambda>w. (w, d + 1)) new)"
        and new: "set new = set (connections (h ! u)) - seen"
        by blast
      have inv': "bfs_inv h S s e (q' @ map (\<lambda>w. (w, d + 1)) new)
                    (seen \<union> set (connections (h ! u)))"
        using "1.prems"(1) inv False new by (rule bfs_inv_step)
      have unf: "bfs_while h e q seen =
          bfs_while h e (q' @ map (\<lambda>w. (w, d + 1)) new) (seen \<union> set (connections (h ! u)))"
        using Cons x dr sc by (subst bfs_while.simps) simp
      from "1.IH"[OF Cons x[symmetric] dr sc refl "1.prems"(1) inv'] unf
      show ?thesis by simp
    qed
  qed
qed


lemma min_highways_spec:
  assumes "closed h S" and "s \<in> S"
  shows "(s = e \<longrightarrow> min_highways h s e = Some 0) \<and>
         (s \<noteq> e \<longrightarrow>
            (\<exists>k. min_highways h s e = Some (int k) \<and> shortest h s e k) \<or>
            (min_highways h s e = Some (- 1) \<and> (\<forall>k. \<not> walk h k s e)))"
proof (cases "s = e")
  case True
  then show ?thesis by (simp add: min_highways_def)
next
  case False
  have "bfs_inv h S s e [(s, 0)] {s}" using assms(2) False by (rule bfs_inv_init)
  from bfs_while_correct[OF assms(1) this] False show ?thesis
    by (simp add: min_highways_def)
qed

lemma walk_sym:
  assumes "well_formed h cs"
  shows "a \<in> set cs \<Longrightarrow> walk h k a b \<Longrightarrow> b \<in> set cs \<and> walk h k b a"
proof (induction k arbitrary: a)
  case 0
  then show ?case by simp
next
  case (Suc k)
  then obtain c where c: "a < length h" "c \<in> set (connections (h ! a))" "walk h k c b"
    by auto
  have cs: "c \<in> set cs" using assms Suc.prems(1) c(2) unfolding well_formed_def by blast
  from Suc.IH[OF cs c(3)] have b: "b \<in> set cs" and w: "walk h k b c" by auto
  have "c < length h" using assms cs by (simp add: well_formed_def)
  moreover have "a \<in> set (connections (h ! c))"
    using assms Suc.prems(1) c(2) unfolding well_formed_def by blast
  ultimately have "walk h (Suc k) b a" using w unfolding walk_snoc by blast
  then show ?case using b by simp
qed

lemma min_highways_sym:
  assumes wf: "well_formed h cs" and a: "a \<in> set cs" and b: "b \<in> set cs"
  shows "min_highways h a b = min_highways h b a"
proof (cases "a = b")
  case True
  then show ?thesis by simp
next
  case False
  have cl: "closed h (set cs)" using wf by (rule well_formed_closed)
  have iff: "walk h k a b \<longleftrightarrow> walk h k b a" for k
    using walk_sym[OF wf a, of k b] walk_sym[OF wf b, of k a] by blast
  then have sh: "shortest h a b k \<longleftrightarrow> shortest h b a k" for k
    by (simp add: shortest_iff)
  from min_highways_spec[OF cl a, of b] False consider
    k where "min_highways h a b = Some (int k)" "shortest h a b k"
    | "min_highways h a b = Some (- 1)" "\<forall>k. \<not> walk h k a b"
    by blast
  then show ?thesis
  proof cases
    case 1
    from min_highways_spec[OF cl b, of a] False consider
      j where "min_highways h b a = Some (int j)" "shortest h b a j"
      | "min_highways h b a = Some (- 1)" "\<forall>k. \<not> walk h k b a"
      by blast
    then show ?thesis
    proof cases
      case (1 j)
      then have "j = k" using \<open>shortest h a b k\<close> sh shortest_unique by blast
      then show ?thesis using 1 \<open>min_highways h a b = Some (int k)\<close> by simp
    next
      case 2
      then show ?thesis using \<open>shortest h a b k\<close> iff by (auto simp: shortest_iff)
    qed
  next
    case 2
    from min_highways_spec[OF cl b, of a] False consider
      j where "min_highways h b a = Some (int j)" "shortest h b a j"
      | "min_highways h b a = Some (- 1)" "\<forall>k. \<not> walk h k b a"
      by blast
    then show ?thesis
    proof cases
      case (1 j)
      then show ?thesis using 2 iff by (auto simp: shortest_iff)
    next
      case 2
      then show ?thesis using \<open>min_highways h a b = Some (- 1)\<close> by simp
    qed
  qed
qed

lemma bfs_while_same_graph:
  assumes "same_graph h g"
  shows "bfs_while g e q seen = bfs_while h e q seen"
  using assms
proof (induction h e q seen rule: bfs_while.induct)
  case (1 h e q seen)
  show ?case
  proof (cases q)
    case Nil
    then show ?thesis by (simp add: bfs_while.simps[of g] bfs_while.simps[of h])
  next
    case (Cons x q')
    obtain u d where x: "x = (u, d)" by (cases x)
    show ?thesis
    proof (cases "u < length h")
      case False
      then have "deref h u = None" "deref g u = None"
        using "1.prems" by (simp_all add: deref_def same_graph_def)
      then show ?thesis using Cons x
        by (simp add: bfs_while.simps[of g] bfs_while.simps[of h])
    next
      case True
      then have dh: "deref h u = Some (h ! u)" and dg: "deref g u = Some (g ! u)"
        and eq: "connections (g ! u) = connections (h ! u)"
        using "1.prems" by (simp_all add: deref_def same_graph_def)
      show ?thesis
      proof (cases "scan_neighbors e d (connections (h ! u)) (seen, q')")
        case (Return r)
        then show ?thesis using Cons x dh dg eq
          by (simp add: bfs_while.simps[of g] bfs_while.simps[of h])
      next
        case (Continue y)
        obtain seen' q'' where y: "y = (seen', q'')" by (cases y)
        have "bfs_while g e q'' seen' = bfs_while h e q'' seen'"
          using "1.IH"[OF Cons x[symmetric] dh Continue y[symmetric] "1.prems"] .
        then show ?thesis using Cons x dh dg eq Continue y
          by (simp add: bfs_while.simps[of g] bfs_while.simps[of h])
      qed
    qed
  qed
qed

lemma min_highways_same_graph:
  "same_graph h g \<Longrightarrow> min_highways g s e = min_highways h s e"
  by (simp only: min_highways_def bfs_while_same_graph)


section \<open>Traversals do not depend on markers left behind\<close>

text \<open>
  Two stores \<open>agree\<close> on a set of cities when they are the same graph and give these
  cities the same flags. The depth-first search then runs alike on both.
\<close>

definition agree :: "ref set \<Rightarrow> heap \<Rightarrow> heap \<Rightarrow> bool" where
  "agree S h k \<longleftrightarrow> same_graph h k \<and> (\<forall>r \<in> S. visited (k ! r) = visited (h ! r))"

lemma agree_mark:
  assumes "agree S h k" and "n < length h"
  shows "agree S (h[n := (h ! n)\<lparr>visited := b\<rparr>]) (k[n := (k ! n)\<lparr>visited := b\<rparr>])"
  using assms by (auto simp: agree_def same_graph_def nth_list_update)

lemma visit_neighbors_agree:
  assumes "agree S h k" and "set ns \<subseteq> S" and "\<forall>n \<in> set ns. n < length h"
    and "visit_neighbors ns (h, st, p) = Some (h', st', p')"
  shows "\<exists>k'. visit_neighbors ns (k, st, p) = Some (k', st', p') \<and> agree S h' k'"
  using assms
proof (induction ns arbitrary: h k st p)
  case Nil
  then show ?case by simp
next
  case (Cons n ns)
  then have nS: "n \<in> S" and nl: "n < length h" by auto
  have nk: "n < length k" and v: "visited (k ! n) = visited (h ! n)"
    and pp: "population (k ! n) = population (h ! n)"
    using Cons.prems(1) nS nl by (auto simp: agree_def same_graph_def)
  show ?case
  proof (cases "visited (h ! n)")
    case True
    have "visit_neighbors ns (h, st, p) = Some (h', st', p')"
      using Cons.prems(4) True nl by (simp add: deref_def)
    from Cons.IH[OF Cons.prems(1) _ _ this] Cons.prems(2,3) obtain k' where
      "visit_neighbors ns (k, st, p) = Some (k', st', p')" "agree S h' k'" by auto
    then show ?thesis using True v nk by (auto simp: deref_def)
  next
    case False
    define h1 where "h1 = h[n := (h ! n)\<lparr>visited := True\<rparr>]"
    define k1 where "k1 = k[n := (k ! n)\<lparr>visited := True\<rparr>]"
    have a1: "agree S h1 k1" unfolding h1_def k1_def using Cons.prems(1) nl by (rule agree_mark)
    have l1: "\<forall>n \<in> set ns. n < length h1" using Cons.prems(3) by (simp add: h1_def)
    have "visit_neighbors ns (h1, st @ [n], p + population (h ! n)) = Some (h', st', p')"
      using Cons.prems(4) False nl by (simp add: deref_def h1_def)
    from Cons.IH[OF a1 _ l1 this] Cons.prems(2) obtain k' where
      "visit_neighbors ns (k1, st @ [n], p + population (h ! n)) = Some (k', st', p')"
      "agree S h' k'" by auto
    then show ?thesis using False v nk pp by (auto simp: deref_def k1_def)
  qed
qed

lemma dfs_while_agree:
  assumes "closed h S" and "set st \<subseteq> S" and "agree S h k"
    and "dfs_while h st p = Some (p', h')"
  shows "\<exists>k'. dfs_while k st p = Some (p', k') \<and> agree S h' k'"
  using assms
proof (induction h st p arbitrary: k rule: dfs_while.induct)
  case (1 h stack p)
  show ?case
  proof (cases "stack = []")
    case True
    then have "h' = h" "p' = p" using "1.prems"(4) by (simp_all add: dfs_while.simps[of h])
    then show ?thesis using True "1.prems"(3) by (simp add: dfs_while.simps[of k])
  next
    case False
    define s where "s = last stack"
    have sS: "s \<in> S" using False "1.prems"(2) by (auto simp: s_def)
    then have sl: "s < length h" and ns: "set (connections (h ! s)) \<subseteq> S"
      using "1.prems"(1) by (auto simp: closed_def)
    have d: "deref h s = Some (h ! s)" using sl by (simp add: deref_def)
    have dk: "deref k s = Some (k ! s)" and ck: "connections (k ! s) = connections (h ! s)"
      using sl "1.prems"(3) by (simp_all add: deref_def agree_def same_graph_def)
    have nl: "\<forall>n \<in> set (connections (h ! s)). n < length h"
      using ns "1.prems"(1) by (auto simp: closed_def)
    from visit_neighbors_spec[OF nl, of "butlast stack" p] obtain h1 new p1 where
      v: "visit_neighbors (connections (h ! s)) (h, butlast stack, p) =
            Some (h1, butlast stack @ new, p1)"
      and sg1: "same_graph h h1" and new: "set new = set (connections (h ! s)) - marked h"
      by blast
    from visit_neighbors_agree[OF "1.prems"(3) ns nl v] obtain k1 where
      vk: "visit_neighbors (connections (h ! s)) (k, butlast stack, p) =
            Some (k1, butlast stack @ new, p1)" and a1: "agree S h1 k1"
      by blast
    have c1: "closed h1 S" using sg1 "1.prems"(1) by (rule same_graph_closed)
    have st1: "set (butlast stack @ new) \<subseteq> S"
      using "1.prems"(2) new ns by (auto dest: in_set_butlastD)
    have "dfs_while h stack p = dfs_while h1 (butlast stack @ new) p1"
      using False d v by (subst dfs_while.simps) (simp add: s_def)
    then have run: "dfs_while h1 (butlast stack @ new) p1 = Some (p', h')"
      using "1.prems"(4) by simp
    from "1.IH"[OF False d[unfolded s_def] v[unfolded s_def] refl refl c1 st1 a1 run]
    obtain k' where r: "dfs_while k1 (butlast stack @ new) p1 = Some (p', k')" "agree S h' k'"
      by blast
    have "dfs_while k stack p = dfs_while k1 (butlast stack @ new) p1"
      using False dk vk ck by (subst dfs_while.simps) (simp add: s_def)
    then show ?thesis using r by simp
  qed
qed

lemma depth_first_search_agree:
  assumes "closed h S" and "a \<in> S" and "agree S h k"
    and "depth_first_search a h = Some (t, h')"
  shows "\<exists>k'. depth_first_search a k = Some (t, k') \<and> agree S h' k'"
proof -
  have al: "a < length h" using assms(1,2) by (simp add: closed_def)
  have ak: "a < length k" and v: "visited (k ! a) = visited (h ! a)"
    and pp: "population (k ! a) = population (h ! a)"
    using assms(2,3) al by (auto simp: agree_def same_graph_def)
  show ?thesis
  proof (cases "visited (h ! a)")
    case True
    then show ?thesis using assms(3,4) al ak v by (auto simp: depth_first_search_def deref_def)
  next
    case False
    define h1 where "h1 = h[a := (h ! a)\<lparr>visited := True\<rparr>]"
    define k1 where "k1 = k[a := (k ! a)\<lparr>visited := True\<rparr>]"
    have a1: "agree S h1 k1" unfolding h1_def k1_def using assms(3) al by (rule agree_mark)
    have "same_graph h h1" unfolding h1_def using al by (rule same_graph_set_flag)
    then have c1: "closed h1 S" using assms(1) by (rule same_graph_closed)
    have "dfs_while h1 [a] (population (h ! a)) = Some (t, h')"
      using assms(4) False al by (simp add: depth_first_search_def deref_def h1_def)
    from dfs_while_agree[OF c1 _ a1 this] assms(2) obtain k' where
      "dfs_while k1 [a] (population (h ! a)) = Some (t, k')" "agree S h' k'" by auto
    then show ?thesis using False v ak pp by (auto simp: depth_first_search_def deref_def k1_def)
  qed
qed

lemma count_islands_agree:
  assumes "closed h S" and "set xs \<subseteq> S" and "agree S h k"
    and "count_islands xs h n = Some (n', h')"
  shows "\<exists>k'. count_islands xs k n = Some (n', k') \<and> agree S h' k'"
  using assms
proof (induction xs arbitrary: h k n)
  case Nil
  then show ?case by simp
next
  case (Cons x xs)
  then have xS: "x \<in> S" and xsS: "set xs \<subseteq> S" by auto
  have xl: "x < length h" using xS Cons.prems(1) by (simp add: closed_def)
  have xk: "x < length k" and v: "visited (k ! x) = visited (h ! x)"
    using Cons.prems(3) xS xl by (auto simp: agree_def same_graph_def)
  show ?case
  proof (cases "visited (h ! x)")
    case True
    have "count_islands xs h n = Some (n', h')"
      using Cons.prems(4) True xl by (simp add: deref_def)
    from Cons.IH[OF Cons.prems(1) xsS Cons.prems(3) this] show ?thesis
      using True v xk by (simp add: deref_def)
  next
    case False
    then have xm: "x \<notin> marked h" by (simp add: marked_def)
    from depth_first_search_spec[OF Cons.prems(1) xS xm] obtain t h1 where
      d: "depth_first_search x h = Some (t, h1)" "same_graph h h1" by blast
    from depth_first_search_agree[OF Cons.prems(1) xS Cons.prems(3) d(1)] obtain k1 where
      dk: "depth_first_search x k = Some (t, k1)" "agree S h1 k1" by blast
    have c1: "closed h1 S" using d(2) Cons.prems(1) by (rule same_graph_closed)
    have "count_islands xs h1 (n + 1) = Some (n', h')"
      using Cons.prems(4) False xl d(1) by (simp add: deref_def)
    from Cons.IH[OF c1 xsS dk(2) this] show ?thesis
      using False v xk dk(1) by (simp add: deref_def)
  qed
qed

lemma collect_populations_agree:
  assumes "closed h S" and "set xs \<subseteq> S" and "agree S h k"
    and "collect_populations xs h acc = Some (ps, h')"
  shows "\<exists>k'. collect_populations xs k acc = Some (ps, k') \<and> agree S h' k'"
  using assms
proof (induction xs arbitrary: h k acc)
  case Nil
  then show ?case by simp
next
  case (Cons x xs)
  then have xS: "x \<in> S" and xsS: "set xs \<subseteq> S" by auto
  have xl: "x < length h" using xS Cons.prems(1) by (simp add: closed_def)
  have xk: "x < length k" and v: "visited (k ! x) = visited (h ! x)"
    using Cons.prems(3) xS xl by (auto simp: agree_def same_graph_def)
  show ?case
  proof (cases "visited (h ! x)")
    case True
    have "collect_populations xs h acc = Some (ps, h')"
      using Cons.prems(4) True xl by (simp add: deref_def)
    from Cons.IH[OF Cons.prems(1) xsS Cons.prems(3) this] show ?thesis
      using True v xk by (simp add: deref_def)
  next
    case False
    then have xm: "x \<notin> marked h" by (simp add: marked_def)
    from depth_first_search_spec[OF Cons.prems(1) xS xm] obtain t h1 where
      d: "depth_first_search x h = Some (t, h1)" "same_graph h h1" by blast
    from depth_first_search_agree[OF Cons.prems(1) xS Cons.prems(3) d(1)] obtain k1 where
      dk: "depth_first_search x k = Some (t, k1)" "agree S h1 k1" by blast
    have c1: "closed h1 S" using d(2) Cons.prems(1) by (rule same_graph_closed)
    have "collect_populations xs h1 (acc @ [t]) = Some (ps, h')"
      using Cons.prems(4) False xl d(1) by (simp add: deref_def)
    from Cons.IH[OF c1 xsS dk(2) this] show ?thesis
      using False v xk dk(1) by (simp add: deref_def)
  qed
qed

lemma reset_all_agree:
  assumes "same_graph h k" and "\<forall>c \<in> set cs. c < length h"
    and "reset_all cs h = Some h0"
  shows "\<exists>k0. reset_all cs k = Some k0 \<and> agree (set cs) h0 k0"
proof -
  have lk: "\<forall>c \<in> set cs. c < length k" using assms(1,2) by (simp add: same_graph_def)
  from reset_all_spec[OF assms(2)] assms(3) have
    h0: "same_graph h h0" "marked h0 = marked h - set cs" by auto
  from reset_all_spec[OF lk] obtain k0 where
    k0: "reset_all cs k = Some k0" "same_graph k k0" "marked k0 = marked k - set cs" by blast
  have len: "length h0 = length h" "length k0 = length h"
    using h0(1) k0(2) assms(1) by (simp_all add: same_graph_def)
  have "same_graph h0 k0"
    using h0(1) k0(2) assms(1) unfolding same_graph_def by simp
  moreover have "visited (k0 ! r) = visited (h0 ! r)" if "r \<in> set cs" for r
  proof -
    have "r \<notin> marked h0" "r \<notin> marked k0" using that h0(2) k0(3) by auto
    moreover have "r < length h" using that assms(2) by simp
    ultimately show ?thesis using len by (simp add: marked_def)
  qed
  ultimately show ?thesis using k0(1) by (auto simp: agree_def)
qed


section \<open>Runs on a small graph\<close>

text \<open>The chain \<open>A - B - C\<close> and the single city \<open>D\<close>.\<close>

definition chain_heap :: heap where
  "chain_heap =
     [\<lparr>name = ''A'', population = 10, connections = [1], visited = False\<rparr>,
      \<lparr>name = ''B'', population = 20, connections = [0, 2], visited = False\<rparr>,
      \<lparr>name = ''C'', population = 30, connections = [1], visited = False\<rparr>,
      \<lparr>name = ''D'', population = 5, connections = [], visited = False\<rparr>]"

text \<open>The same store with every marker set, as a traversal of the islands leaves it.\<close>

definition chain_marked :: heap where
  "chain_marked =
     [\<lparr>name = ''A'', population = 10, connections = [1], visited = True\<rparr>,
      \<lparr>name = ''B'', population = 20, connections = [0, 2], visited = True\<rparr>,
      \<lparr>name = ''C'', population = 30, connections = [1], visited = True\<rparr>,
      \<lparr>name = ''D'', population = 5, connections = [], visited = True\<rparr>]"

lemma build_chain:
  "build_graph (join_nl [''A : 10'', ''B : 20'', ''C : 30'', ''D : 5''])
               (join_nl [''A : B'', ''B : C'']) = (chain_heap, [0, 1, 2, 3])"
  unfolding chain_heap_def by code_simp

lemma chain_min_highways:
  "min_highways chain_heap 0 2 = Some 2"
  "min_highways chain_heap 2 0 = Some 2"
  "min_highways chain_heap 0 3 = Some (- 1)"
  "min_highways chain_heap 3 0 = Some (- 1)"
  "min_highways chain_heap 1 1 = Some 0"
  unfolding chain_heap_def by code_simp+

lemma chain_islands:
  "number_of_islands chain_heap [0, 1, 2, 3] = Some (2, chain_marked)"
  "island_populations chain_heap [0, 1, 2, 3] = Some ([60, 5], chain_marked)"
  unfolding chain_heap_def chain_marked_def by code_simp+

lemma chain_islands_again:
  "number_of_islands chain_marked [0, 1, 2, 3] = Some (2, chain_marked)"
  unfolding chain_marked_def by code_simp

lemma chain_same_graph: "same_graph chain_heap chain_marked"
  by (simp add: same_graph_def chain_heap_def chain_marked_def less_Suc_eq)

lemma self_road_islands:
  "number_of_islands [\<lparr>name = ''A'', population = 1, connections = [0], visited = False\<rparr>] [0] =
     Some (1, [\<lparr>name = ''A'', population = 1, connections = [0], visited = True\<rparr>])"
  by code_simp

lemma chain_walk: "walk chain_heap 2 0 2" "\<not> walk chain_heap 1 0 2" "\<not> walk chain_heap 0 0 2"
  unfolding chain_heap_def by code_simp+


section \<open>Claims about the traversals\<close>

text \<open>
  Claim C1. For two cities \<open>s\<close> and \<open>e\<close> of a built graph, \<^verbatim>\<open>min_highways\<close> returns 0
  when they are the same city, the least number of edges of a path from \<open>s\<close> to \<open>e\<close>
  when there is a path, and -1 when there is none.
\<close>

theorem min_highways_correct:
  assumes "build_graph pop_data road_data = (h, cs)" and "s \<in> set cs" and "e \<in> set cs"
  shows "(s = e \<longrightarrow> min_highways h s e = Some 0) \<and>
         ((\<exists>k. walk h k s e) \<longrightarrow> (\<exists>d. min_highways h s e = Some (int d) \<and> shortest h s e d)) \<and>
         ((\<forall>k. \<not> walk h k s e) \<longrightarrow> min_highways h s e = Some (- 1))"
proof -
  have cl: "closed h (set cs)"
    using build_graph_well_formed[OF assms(1)] by (rule well_formed_closed)
  note spec = min_highways_spec[OF cl assms(2), of e]
  show ?thesis
  proof (cases "s = e")
    case True
    have sh: "shortest h s e 0" using True by (simp add: shortest_iff)
    have m: "min_highways h s e = Some (int 0)" using spec True by simp
    have w: "\<exists>k. walk h k s e" using sh unfolding shortest_iff by blast
    have m0: "min_highways h s e = Some 0" using m by simp
    have "\<exists>d. min_highways h s e = Some (int d) \<and> shortest h s e d" using sh m by blast
    then show ?thesis using m0 w by blast
  next
    case False
    with spec consider
      k where "min_highways h s e = Some (int k)" "shortest h s e k"
      | "min_highways h s e = Some (- 1)" "\<forall>k. \<not> walk h k s e"
      by blast
    then show ?thesis
    proof cases
      case 1
      then have "\<exists>k. walk h k s e" by (auto simp: shortest_iff)
      then show ?thesis using 1 False by auto
    next
      case 2
      then show ?thesis using False by auto
    qed
  qed
qed

theorem min_highways_correct_witness:
  "build_graph (join_nl [''A : 10'', ''B : 20'', ''C : 30'', ''D : 5''])
               (join_nl [''A : B'', ''B : C'']) = (chain_heap, [0, 1, 2, 3]) \<and>
   walk chain_heap 2 0 2 \<and> min_highways chain_heap 0 2 = Some 2 \<and> shortest chain_heap 0 2 2 \<and>
   min_highways chain_heap 1 1 = Some 0 \<and>
   min_highways chain_heap 0 3 = Some (- 1)"
proof -
  from min_highways_correct[OF build_chain, of 0 2] chain_walk(1)
  obtain d where "min_highways chain_heap 0 2 = Some (int d)" "shortest chain_heap 0 2 d"
    by auto
  then have "shortest chain_heap 0 2 2" using chain_min_highways(1) by simp
  then show ?thesis using build_chain chain_walk(1) chain_min_highways by simp
qed

text \<open>
  Claim C7. For two cities \<open>a\<close> and \<open>b\<close> of a built graph, \<^verbatim>\<open>min_highways\<close> returns the
  same value from \<open>a\<close> to \<open>b\<close> as from \<open>b\<close> to \<open>a\<close>, reachable or not.
\<close>

theorem min_highways_symmetric:
  assumes "build_graph pop_data road_data = (h, cs)" and "a \<in> set cs" and "b \<in> set cs"
  shows "min_highways h a b = min_highways h b a"
  using build_graph_well_formed[OF assms(1)] assms(2,3) by (rule min_highways_sym)

theorem min_highways_symmetric_witness:
  "build_graph (join_nl [''A : 10'', ''B : 20'', ''C : 30'', ''D : 5''])
               (join_nl [''A : B'', ''B : C'']) = (chain_heap, [0, 1, 2, 3]) \<and>
   min_highways chain_heap 0 2 = Some 2 \<and> min_highways chain_heap 2 0 = Some 2 \<and>
   min_highways chain_heap 0 3 = min_highways chain_heap 3 0"
  using min_highways_symmetric[OF build_chain, of 0 3] build_chain chain_min_highways by simp

text \<open>
  Claim C2. On a built graph, whatever markers earlier traversals left, the list
  returned by \<^verbatim>\<open>island_populations\<close> sums to the total population of the cities.
\<close>

theorem island_populations_total:
  assumes "build_graph pop_data road_data = (h, cs)" and "same_graph h g"
  shows "\<exists>ps g'. island_populations g cs = Some (ps, g') \<and>
           sum_list ps = (\<Sum>c\<leftarrow>cs. population (h ! c))"
proof -
  have wf: "well_formed h cs" using assms(1) by (rule build_graph_well_formed)
  have wg: "well_formed g cs" using assms(2) wf by (rule same_graph_well_formed)
  from island_populations_spec[OF wg] obtain ps g' where
    r: "island_populations g cs = Some (ps, g')" "sum_list ps = (\<Sum>c\<leftarrow>cs. population (g ! c))"
    by blast
  have "\<And>c. c \<in> set cs \<Longrightarrow> population (g ! c) = population (h ! c)"
    using wf assms(2) by (simp add: well_formed_def same_graph_def)
  then have "(\<Sum>c\<leftarrow>cs. population (g ! c)) = (\<Sum>c\<leftarrow>cs. population (h ! c))"
    by (auto intro: arg_cong[where f = sum_list])
  then show ?thesis using r by auto
qed

theorem island_populations_total_witness:
  "build_graph (join_nl [''A : 10'', ''B : 20'', ''C : 30'', ''D : 5''])
               (join_nl [''A : B'', ''B : C'']) = (chain_heap, [0, 1, 2, 3]) \<and>
   island_populations chain_heap [0, 1, 2, 3] =
     Some ([60, 5], chain_marked) \<and>
   sum_list [60, 5] = (\<Sum>c\<leftarrow>[0, 1, 2, 3]. population (chain_heap ! c))"
  using island_populations_total[OF build_chain same_graph_refl] build_chain chain_islands(2)
  by simp

text \<open>
  Claim C3 says that \<^verbatim>\<open>number_of_islands\<close> equals the number of cities only if the graph
  has no edge. After the road line \<^verbatim>\<open>A : A\<close> the single city has a connection, and
  the count still equals the number of cities.
\<close>

theorem number_of_islands_counterexample:
  "build_graph ''A : 1'' ''A : A'' =
     ([\<lparr>name = ''A'', population = 1, connections = [0], visited = False\<rparr>], [0]) \<and>
   number_of_islands [\<lparr>name = ''A'', population = 1, connections = [0], visited = False\<rparr>] [0] =
     Some (1, [\<lparr>name = ''A'', population = 1, connections = [0], visited = True\<rparr>]) \<and>
   length [0::nat] = 1 \<and>
   connections ([\<lparr>name = ''A'', population = 1, connections = [0], visited = False\<rparr>] ! 0) \<noteq> []"
  using build_self_road self_road_islands by simp

text \<open>
  Claim C3, amended. On a built graph \<^verbatim>\<open>number_of_islands\<close> returns at most the number
  of cities, and exactly that number if and only if no city has a neighbor other than
  itself.
\<close>

theorem number_of_islands_bound:
  assumes "build_graph pop_data road_data = (h, cs)" and "same_graph h g"
  shows "\<exists>n g'. number_of_islands g cs = Some (n, g') \<and> n \<le> int (length cs) \<and>
           (n = int (length cs) \<longleftrightarrow> (\<forall>c \<in> set cs. set (connections (h ! c)) \<subseteq> {c}))"
proof -
  have wf: "well_formed h cs" using assms(1) by (rule build_graph_well_formed)
  have wg: "well_formed g cs" using assms(2) wf by (rule same_graph_well_formed)
  have eq: "\<And>c. c \<in> set cs \<Longrightarrow> connections (g ! c) = connections (h ! c)"
    using wf assms(2) by (simp add: well_formed_def same_graph_def)
  from number_of_islands_spec[OF wg] obtain n g' where
    r: "number_of_islands g cs = Some (n, g')" "n \<le> int (length cs)"
       "n = int (length cs) \<longleftrightarrow> (\<forall>c \<in> set cs. set (connections (g ! c)) \<subseteq> {c})"
    by blast
  have "(\<forall>c \<in> set cs. set (connections (g ! c)) \<subseteq> {c}) \<longleftrightarrow>
        (\<forall>c \<in> set cs. set (connections (h ! c)) \<subseteq> {c})"
    using eq by simp
  then show ?thesis using r by auto
qed

theorem number_of_islands_bound_witness:
  "build_graph (join_nl [''A : 10'', ''B : 20'', ''C : 30'', ''D : 5''])
               (join_nl [''A : B'', ''B : C'']) = (chain_heap, [0, 1, 2, 3]) \<and>
   same_graph chain_heap chain_marked \<and>
   number_of_islands chain_marked [0, 1, 2, 3] =
     Some (2, chain_marked) \<and>
   (2::int) \<le> int (length [0::nat, 1, 2, 3]) \<and>
   \<not> (\<forall>c \<in> set [0, 1, 2, 3]. set (connections (chain_heap ! c)) \<subseteq> {c})"
proof -
  from number_of_islands_bound[OF build_chain chain_same_graph] chain_islands_again
  have "\<not> (\<forall>c \<in> set [0, 1, 2, 3]. set (connections (chain_heap ! c)) \<subseteq> {c})"
    by auto
  then show ?thesis using build_chain chain_same_graph chain_islands_again by simp
qed

text \<open>
  Claim C6 says that every traversal leaves every marker false when it returns.
  \<^verbatim>\<open>number_of_islands\<close> leaves the marker of the first city of the chain set.
\<close>

theorem markers_left_set_counterexample:
  "build_graph (join_nl [''A : 10'', ''B : 20'', ''C : 30'', ''D : 5''])
               (join_nl [''A : B'', ''B : C'']) = (chain_heap, [0, 1, 2, 3]) \<and>
   number_of_islands chain_heap [0, 1, 2, 3] =
     Some (2, chain_marked) \<and>
   visited (chain_marked ! 0)"
  using build_chain chain_islands(1) by (simp add: chain_marked_def)

text \<open>
  Claim C6, amended. On a built graph with any markers left behind,
  \<^verbatim>\<open>number_of_islands\<close> and \<^verbatim>\<open>island_populations\<close> first clear the marker of every city
  of the list, then explore, return what they return on the fresh graph, and leave
  the marker of every city of the list set; \<^verbatim>\<open>min_highways\<close> does not depend on the
  markers (and, having its own set of seen cities, changes none).
\<close>

theorem markers_reset_then_set:
  assumes "build_graph pop_data road_data = (h, cs)" and "same_graph h g"
  shows "(\<exists>g0 n g'. reset_all cs g = Some g0 \<and> (\<forall>c \<in> set cs. \<not> visited (g0 ! c)) \<and>
            number_of_islands g cs = count_islands cs g0 0 \<and>
            count_islands cs g0 0 = Some (n, g') \<and> (\<forall>c \<in> set cs. visited (g' ! c)) \<and>
            map_option fst (number_of_islands h cs) = Some n) \<and>
         (\<exists>g0 ps g'. reset_all cs g = Some g0 \<and> (\<forall>c \<in> set cs. \<not> visited (g0 ! c)) \<and>
            island_populations g cs = collect_populations cs g0 [] \<and>
            collect_populations cs g0 [] = Some (ps, g') \<and> (\<forall>c \<in> set cs. visited (g' ! c)) \<and>
            map_option fst (island_populations h cs) = Some ps) \<and>
         (\<forall>s e. min_highways g s e = min_highways h s e)"
proof -
  have wf: "well_formed h cs" using assms(1) by (rule build_graph_well_formed)
  have lt: "\<forall>c \<in> set cs. c < length h" using wf by (simp add: well_formed_def)
  from reset_all_spec[OF lt] obtain h0 where
    h0: "reset_all cs h = Some h0" "same_graph h h0" "marked h0 = marked h - set cs" by blast
  from reset_all_agree[OF assms(2) lt h0(1)] obtain g0 where
    g0: "reset_all cs g = Some g0" "agree (set cs) h0 g0" by blast
  have c0: "closed h0 (set cs)"
    using h0(2) well_formed_closed[OF wf] by (rule same_graph_closed)
  have len: "length h0 = length h" "length g0 = length h"
    using h0(2) g0(2) by (simp_all add: agree_def same_graph_def)
  have cg: "closed g0 (set cs)"
    using g0(2) c0 unfolding agree_def by (auto intro: same_graph_closed)
  have clear: "\<forall>c \<in> set cs. \<not> visited (g0 ! c)"
  proof
    fix c assume c: "c \<in> set cs"
    then have "c \<notin> marked h0" using h0(3) by simp
    then have "\<not> visited (h0 ! c)" using c lt len by (simp add: marked_def)
    then show "\<not> visited (g0 ! c)" using g0(2) c by (simp add: agree_def)
  qed
  have part1: "\<exists>g0 n g'. reset_all cs g = Some g0 \<and> (\<forall>c \<in> set cs. \<not> visited (g0 ! c)) \<and>
            number_of_islands g cs = count_islands cs g0 0 \<and>
            count_islands cs g0 0 = Some (n, g') \<and> (\<forall>c \<in> set cs. visited (g' ! c)) \<and>
            map_option fst (number_of_islands h cs) = Some n"
  proof -
    from count_islands_spec[OF c0 subset_refl, of 0] obtain n h' where
      ch: "count_islands cs h0 0 = Some (n, h')" by blast
    from count_islands_agree[OF c0 subset_refl g0(2) ch] obtain g' where
      cgr: "count_islands cs g0 0 = Some (n, g')" by blast
    from count_islands_spec[OF cg subset_refl, of 0] cgr have "set cs \<subseteq> marked g'" by auto
    then have "\<forall>c \<in> set cs. visited (g' ! c)" by (auto simp: marked_def)
    moreover have "number_of_islands g cs = count_islands cs g0 0"
      using g0(1) by (simp add: number_of_islands_def)
    moreover have "map_option fst (number_of_islands h cs) = Some n"
      using h0(1) ch by (simp add: number_of_islands_def)
    ultimately show ?thesis using g0(1) clear cgr by blast
  qed
  have part2: "\<exists>g0 ps g'. reset_all cs g = Some g0 \<and> (\<forall>c \<in> set cs. \<not> visited (g0 ! c)) \<and>
            island_populations g cs = collect_populations cs g0 [] \<and>
            collect_populations cs g0 [] = Some (ps, g') \<and> (\<forall>c \<in> set cs. visited (g' ! c)) \<and>
            map_option fst (island_populations h cs) = Some ps"
  proof -
    from collect_populations_spec[OF c0 subset_refl, of "[]"] obtain ps h' where
      ch: "collect_populations cs h0 [] = Some (ps, h')" by auto
    from collect_populations_agree[OF c0 subset_refl g0(2) ch] obtain g' where
      cgr: "collect_populations cs g0 [] = Some (ps, g')" by blast
    from collect_populations_spec[OF cg subset_refl, of "[]"] cgr have "set cs \<subseteq> marked g'"
      by auto
    then have "\<forall>c \<in> set cs. visited (g' ! c)" by (auto simp: marked_def)
    moreover have "island_populations g cs = collect_populations cs g0 []"
      using g0(1) by (simp add: island_populations_def)
    moreover have "map_option fst (island_populations h cs) = Some ps"
      using h0(1) ch by (simp add: island_populations_def)
    ultimately show ?thesis using g0(1) clear cgr by blast
  qed
  have part3: "\<forall>s e. min_highways g s e = min_highways h s e"
    using assms(2) by (simp only: min_highways_same_graph) simp
  show ?thesis using part1 part2 part3 by blast
qed

theorem markers_reset_then_set_witness:
  "build_graph (join_nl [''A : 10'', ''B : 20'', ''C : 30'', ''D : 5''])
               (join_nl [''A : B'', ''B : C'']) = (chain_heap, [0, 1, 2, 3]) \<and>
   same_graph chain_heap chain_marked \<and>
   map_option fst (number_of_islands chain_marked [0, 1, 2, 3]) =
     map_option fst (number_of_islands chain_heap [0, 1, 2, 3]) \<and>
   min_highways chain_marked 0 2 = Some 2"
proof -
  from markers_reset_then_set[OF build_chain chain_same_graph]
  have "min_highways chain_marked 0 2 = min_highways chain_heap 0 2"
    by blast
  then show ?thesis
    using build_chain chain_same_graph chain_islands(1) chain_islands_again chain_min_highways(1)
    by simp
qed

end
